theory Spec2Isabelle
  imports Complex_Main "HOL-Library.Multiset" "HOL-Library.Log_Nat"
begin

section \<open>JavaScript numbers\<close>

text \<open>
  The values of type \<^verbatim>\<open>number\<close> that the renderer computes with. The special values
  are kept, because the program reaches them: \<^verbatim>\<open>Math.min()\<close> of no arguments is
  \<^verbatim>\<open>Infinity\<close>, a division by a zero duration is \<^verbatim>\<open>Infinity\<close>, and
  \<^verbatim>\<open>0 * Infinity\<close> is \<^verbatim>\<open>NaN\<close>. A finite value is a rational number. The
  operations \<open>js_add\<close>, \<open>js_sub\<close>, \<open>js_mul\<close> and \<open>js_div\<close> give the exact result
  of an operation on finite values; \<open>binary64\<close>, defined after them, rounds an exact
  result to the 64-bit format, and the operations \<open>f64_add\<close>, \<open>f64_sub\<close>, \<open>f64_mul\<close>
  and \<open>f64_div\<close> are the operations of JavaScript, which round. The sign of zero is not
  modelled (the program never divides by a computed zero other than the difference of two
  timestamps, which is \<^verbatim>\<open>+0\<close>, and never prints or compares a zero by its sign).
\<close>

datatype jsnum = Fin rat | PInf | NInf | NaN

abbreviation num :: "nat \<Rightarrow> jsnum" where
  "num n \<equiv> Fin (of_nat n)"

fun js_neg :: "jsnum \<Rightarrow> jsnum" where
  "js_neg (Fin a) = Fin (- a)"
| "js_neg PInf = NInf"
| "js_neg NInf = PInf"
| "js_neg NaN = NaN"

fun js_add :: "jsnum \<Rightarrow> jsnum \<Rightarrow> jsnum" where
  "js_add (Fin a) (Fin b) = Fin (a + b)"
| "js_add (Fin a) PInf = PInf"
| "js_add (Fin a) NInf = NInf"
| "js_add PInf (Fin b) = PInf"
| "js_add NInf (Fin b) = NInf"
| "js_add PInf PInf = PInf"
| "js_add NInf NInf = NInf"
| "js_add PInf NInf = NaN"
| "js_add NInf PInf = NaN"
| "js_add NaN y = NaN"
| "js_add (Fin a) NaN = NaN"
| "js_add PInf NaN = NaN"
| "js_add NInf NaN = NaN"

definition js_sub :: "jsnum \<Rightarrow> jsnum \<Rightarrow> jsnum" where
  "js_sub x y = js_add x (js_neg y)"

fun js_mul :: "jsnum \<Rightarrow> jsnum \<Rightarrow> jsnum" where
  "js_mul (Fin a) (Fin b) = Fin (a * b)"
| "js_mul (Fin a) PInf = (if a = 0 then NaN else if 0 < a then PInf else NInf)"
| "js_mul (Fin a) NInf = (if a = 0 then NaN else if 0 < a then NInf else PInf)"
| "js_mul PInf (Fin b) = (if b = 0 then NaN else if 0 < b then PInf else NInf)"
| "js_mul NInf (Fin b) = (if b = 0 then NaN else if 0 < b then NInf else PInf)"
| "js_mul PInf PInf = PInf"
| "js_mul NInf NInf = PInf"
| "js_mul PInf NInf = NInf"
| "js_mul NInf PInf = NInf"
| "js_mul NaN y = NaN"
| "js_mul (Fin a) NaN = NaN"
| "js_mul PInf NaN = NaN"
| "js_mul NInf NaN = NaN"

fun js_div :: "jsnum \<Rightarrow> jsnum \<Rightarrow> jsnum" where
  "js_div (Fin a) (Fin b) =
     (if b = 0 then (if a = 0 then NaN else if 0 < a then PInf else NInf)
      else Fin (a / b))"
| "js_div (Fin a) PInf = Fin 0"
| "js_div (Fin a) NInf = Fin 0"
| "js_div PInf (Fin b) = (if 0 \<le> b then PInf else NInf)"
| "js_div NInf (Fin b) = (if 0 \<le> b then NInf else PInf)"
| "js_div PInf PInf = NaN"
| "js_div NInf NInf = NaN"
| "js_div PInf NInf = NaN"
| "js_div NInf PInf = NaN"
| "js_div NaN y = NaN"
| "js_div (Fin a) NaN = NaN"
| "js_div PInf NaN = NaN"
| "js_div NInf NaN = NaN"

text \<open>\<^verbatim>\<open>Math.floor\<close>.\<close>

fun js_floor :: "jsnum \<Rightarrow> jsnum" where
  "js_floor (Fin a) = Fin (of_int \<lfloor>a\<rfloor>)"
| "js_floor PInf = PInf"
| "js_floor NInf = NInf"
| "js_floor NaN = NaN"

text \<open>The comparisons \<^verbatim>\<open><\<close>, \<^verbatim>\<open><=\<close>, \<^verbatim>\<open>>\<close>, \<^verbatim>\<open>>=\<close> and \<^verbatim>\<open>===\<close>: false as soon as an
  operand is \<^verbatim>\<open>NaN\<close>.\<close>

fun js_lt :: "jsnum \<Rightarrow> jsnum \<Rightarrow> bool" where
  "js_lt (Fin a) (Fin b) = (a < b)"
| "js_lt (Fin a) PInf = True"
| "js_lt NInf (Fin b) = True"
| "js_lt NInf PInf = True"
| "js_lt NaN y = False"
| "js_lt PInf y = False"
| "js_lt (Fin a) NInf = False"
| "js_lt (Fin a) NaN = False"
| "js_lt NInf NInf = False"
| "js_lt NInf NaN = False"

definition js_eq :: "jsnum \<Rightarrow> jsnum \<Rightarrow> bool" where
  "js_eq x y = (x \<noteq> NaN \<and> x = y)"

definition js_le :: "jsnum \<Rightarrow> jsnum \<Rightarrow> bool" where
  "js_le x y = (js_lt x y \<or> js_eq x y)"

definition js_gt :: "jsnum \<Rightarrow> jsnum \<Rightarrow> bool" where
  "js_gt x y = js_lt y x"

definition js_ge :: "jsnum \<Rightarrow> jsnum \<Rightarrow> bool" where
  "js_ge x y = js_le y x"

text \<open>\<^verbatim>\<open>Math.min\<close> and \<^verbatim>\<open>Math.max\<close>, of two arguments and of a spread array: a
  \<^verbatim>\<open>NaN\<close> argument makes the result \<^verbatim>\<open>NaN\<close>, and no argument at all gives
  \<^verbatim>\<open>Infinity\<close> and \<^verbatim>\<open>-Infinity\<close>.\<close>

definition js_min2 :: "jsnum \<Rightarrow> jsnum \<Rightarrow> jsnum" where
  "js_min2 x y = (if x = NaN \<or> y = NaN then NaN else if js_lt y x then y else x)"

definition js_max2 :: "jsnum \<Rightarrow> jsnum \<Rightarrow> jsnum" where
  "js_max2 x y = (if x = NaN \<or> y = NaN then NaN else if js_lt x y then y else x)"

definition Math_min :: "jsnum list \<Rightarrow> jsnum" where
  "Math_min xs = foldl js_min2 PInf xs"

definition Math_max :: "jsnum list \<Rightarrow> jsnum" where
  "Math_max xs = foldl js_max2 NInf xs"

text \<open>\<^verbatim>\<open>Array.prototype.includes\<close> compares with SameValueZero, under which
  \<^verbatim>\<open>NaN\<close> is found in an array that holds it.\<close>

definition array_includes :: "jsnum list \<Rightarrow> jsnum \<Rightarrow> bool" where
  "array_includes xs x = (x \<in> set xs)"

section \<open>Rounding to binary64\<close>

text \<open>Rounding to the nearest integer, a tie going to the even one.\<close>

definition rne :: "rat \<Rightarrow> int" where
  "rne t = (let n = \<lfloor>t\<rfloor>; r = t - of_int n
            in if r < 1 / 2 then n else if 1 / 2 < r then n + 1
               else if even n then n else n + 1)"

text \<open>The binary exponent of a positive rational \<open>x\<close>: the integer \<open>e\<close> with
  \<open>2\<^sup>e \<le> x < 2\<^sup>e\<^sup>+\<^sup>1\<close>. It is the difference of the bit lengths of numerator and
  denominator, or one less.\<close>

definition ilog2 :: "rat \<Rightarrow> int" where
  "ilog2 x = (let (p, q) = quotient_of x; k = bitlen p - bitlen q
              in if 2 powi k \<le> x then k else k - 1)"

text \<open>
  The number of the binary64 format nearest to a rational, before overflow is looked at: a
  significand of 53 bits, so a spacing of \<open>2\<^sup>e\<^sup>-\<^sup>5\<^sup>2\<close> between the numbers of exponent \<open>e\<close>;
  below the exponent \<open>-1022\<close> the spacing stays \<open>2\<^sup>-\<^sup>1\<^sup>0\<^sup>7\<^sup>4\<close> (gradual underflow). A tie
  goes to the even significand.
\<close>

definition round64 :: "rat \<Rightarrow> rat" where
  "round64 x = (let e = max (ilog2 \<bar>x\<bar>) (- 1022); q = 2 powi (e - 52)
                in sgn x * (of_int (rne (\<bar>x\<bar> / q)) * q))"

text \<open>The result of an operation as JavaScript stores it: the exact result rounded, and
  an infinity when the rounded result is beyond the largest finite number.\<close>

definition binary64 :: "jsnum \<Rightarrow> jsnum" where
  "binary64 x =
     (case x of
        Fin q \<Rightarrow> (let y = round64 q
                  in if 2 ^ 1024 \<le> \<bar>y\<bar> then (if 0 < y then PInf else NInf) else Fin y)
      | _ \<Rightarrow> x)"

text \<open>
  The operators \<^verbatim>\<open>+\<close>, \<^verbatim>\<open>-\<close>, \<^verbatim>\<open>*\<close> and \<^verbatim>\<open>/\<close> of JavaScript. The renderer computes with
  them wherever it computes with times or scales a time to a column. The exact operations
  stay where an operation of the program has integer operands and an integer result below
  \<open>2\<^sup>5\<^sup>3\<close>, which no rounding changes: the length of a string plus two, the columns that
  the loops count and compare, and the sign of the difference that a comparator of
  \<^verbatim>\<open>sort\<close> returns. They also stay in \<open>formatDuration\<close>, where the quotient by 100 is
  only printed: \<^verbatim>\<open>toString\<close> prints the shortest decimal that identifies the rounded
  quotient, which is the decimal of the exact quotient.
\<close>

definition f64_add :: "jsnum \<Rightarrow> jsnum \<Rightarrow> jsnum" where
  "f64_add x y = binary64 (js_add x y)"

definition f64_sub :: "jsnum \<Rightarrow> jsnum \<Rightarrow> jsnum" where
  "f64_sub x y = binary64 (js_sub x y)"

definition f64_mul :: "jsnum \<Rightarrow> jsnum \<Rightarrow> jsnum" where
  "f64_mul x y = binary64 (js_mul x y)"

definition f64_div :: "jsnum \<Rightarrow> jsnum \<Rightarrow> jsnum" where
  "f64_div x y = binary64 (js_div x y)"

section \<open>Numbers as text\<close>

definition digit_char :: "nat \<Rightarrow> char" where
  "digit_char d = ''0123456789'' ! d"

fun show_nat :: "nat \<Rightarrow> string" where
  "show_nat n = (if n < 10 then [digit_char n] else show_nat (n div 10) @ [digit_char (n mod 10)])"

declare show_nat.simps [simp del]

text \<open>The digits after the decimal point of a fraction \<open>0 \<le> f < 1\<close>, until the
  expansion ends (at most \<open>k\<close> of them).\<close>

fun frac_digits :: "nat \<Rightarrow> rat \<Rightarrow> string" where
  "frac_digits 0 f = []"
| "frac_digits (Suc k) f =
     (if f = 0 then []
      else digit_char (nat \<lfloor>10 * f\<rfloor>) # frac_digits k (10 * f - of_int \<lfloor>10 * f\<rfloor>))"

text \<open>
  \<^verbatim>\<open>Number::toString\<close>, as a template literal applies it. For a finite value it is
  the decimal expansion without trailing zeros; that is what JavaScript prints for the
  numbers this program prints, which are integers and multiples of one hundredth (below
  \<open>10\<^sup>2\<^sup>1\<close>, where the exponent notation starts).
\<close>

fun js_toString :: "jsnum \<Rightarrow> string" where
  "js_toString NaN = ''NaN''"
| "js_toString PInf = ''Infinity''"
| "js_toString NInf = ''-Infinity''"
| "js_toString (Fin q) =
     (if q < 0 then ''-'' else '''') @ show_nat (nat \<lfloor>\<bar>q\<bar>\<rfloor>) @
     (if \<bar>q\<bar> = of_int \<lfloor>\<bar>q\<bar>\<rfloor> then ''''
      else ''.'' @ frac_digits 20 (\<bar>q\<bar> - of_int \<lfloor>\<bar>q\<bar>\<rfloor>))"

section \<open>formatDuration\<close>

definition formatDuration :: "jsnum \<Rightarrow> string" where
  "formatDuration ms =
     (if js_lt ms (Fin 1000) then js_toString ms @ ''ms''
      else let seconds = js_div (js_floor (js_div ms (Fin 10))) (Fin 100)
           in js_toString seconds @ ''s'')"

text \<open>The fractional part \<open>h / 100\<close> of a number of seconds, \<open>h < 100\<close>, as it is
  printed: nothing for zero, and no trailing zero.\<close>

definition hundredths :: "nat \<Rightarrow> string" where
  "hundredths h =
     (if h = 0 then ''''
      else if h mod 10 = 0 then [CHR ''.'', digit_char (h div 10)]
      else [CHR ''.'', digit_char (h div 10), digit_char (h mod 10)])"

section \<open>Tasks, configuration and the renderer's state\<close>

text \<open>The fields of a task the renderer reads: \<^verbatim>\<open>taskId\<close>, \<^verbatim>\<open>package\<close>, and the
  start and end of \<^verbatim>\<open>execution\<close>, in epoch milliseconds.\<close>

record SummaryTask =
  taskId :: string
  package :: string
  exec_startTime :: int
  exec_endTime :: int

abbreviation tnum :: "int \<Rightarrow> jsnum" where
  "tnum t \<equiv> Fin (of_int t)"

definition TIMELINE_WIDTH :: jsnum where
  "TIMELINE_WIDTH = Fin 100"

definition MAX_LABEL_WIDTH :: jsnum where
  "MAX_LABEL_WIDTH = Fin 45"

definition MIN_BAR_WIDTH :: jsnum where
  "MIN_BAR_WIDTH = Fin 3"

definition NUM_TIME_MARKERS :: nat where
  "NUM_TIME_MARKERS = 8"

text \<open>A colour is the code \<open>c\<close> of the escape sequence \<^verbatim>\<open>ESC[48;5;c m\<close>.\<close>

record TimelineRenderer =
  msToChars :: jsnum
  startTime :: jsnum
  endTime :: jsnum
  totalDuration :: jsnum
  labelWidth :: jsnum
  packageColors :: "string \<rightharpoonup> nat"

text \<open>\<^verbatim>\<open>[...new Set(xs)]\<close>: the distinct elements, in the order of their first
  occurrence.\<close>

definition js_Set :: "'a list \<Rightarrow> 'a list" where
  "js_Set xs = foldl (\<lambda>acc x. if x \<in> set acc then acc else acc @ [x]) [] xs"

definition colorCodes :: "nat list" where
  "colorCodes = [29, 31, 64, 97, 136, 166, 168]"

definition assignPackageColors :: "SummaryTask list \<Rightarrow> (string \<rightharpoonup> nat)" where
  "assignPackageColors tasks =
     (let uniquePackages = js_Set (map package tasks)
      in foldl (\<lambda>packageColorMap (pkg, index).
                  packageColorMap(pkg \<mapsto> colorCodes ! (index mod length colorCodes)))
           Map.empty (zip uniquePackages [0 ..< length uniquePackages]))"

definition new_TimelineRenderer :: "SummaryTask list \<Rightarrow> jsnum \<Rightarrow> TimelineRenderer" where
  "new_TimelineRenderer tasks timelineWidth =
     (let startTime' = Math_min (map (\<lambda>t. tnum (exec_startTime t)) tasks);
          endTime' = Math_max (map (\<lambda>t. tnum (exec_endTime t)) tasks);
          totalDuration' = f64_sub endTime' startTime';
          maxLabelLength = Math_max (map (\<lambda>t. num (length (taskId t))) tasks)
      in \<lparr> msToChars = f64_div timelineWidth totalDuration',
           startTime = startTime',
           endTime = endTime',
           totalDuration = totalDuration',
           labelWidth = js_min2 (js_add maxLabelLength (Fin 2)) MAX_LABEL_WIDTH,
           packageColors = assignPackageColors tasks \<rparr>)"

definition getTaskColor :: "TimelineRenderer \<Rightarrow> SummaryTask \<Rightarrow> nat" where
  "getTaskColor r task = (case packageColors r (package task) of Some c \<Rightarrow> c | None \<Rightarrow> 51)"

definition timeToChars :: "TimelineRenderer \<Rightarrow> jsnum \<Rightarrow> jsnum" where
  "timeToChars r ms = js_floor (f64_mul ms (msToChars r))"

definition getMarkerPositions :: "TimelineRenderer \<Rightarrow> jsnum list" where
  "getMarkerPositions r =
     (let width = timeToChars r (totalDuration r);
          positions = map (\<lambda>i. js_floor (f64_mul (f64_div (num i) (num NUM_TIME_MARKERS)) width))
                        [0 ..< Suc NUM_TIME_MARKERS]
      in if \<not> array_includes positions width then positions @ [width] else positions)"

definition getTimestamps :: "TimelineRenderer \<Rightarrow> (jsnum \<times> string) list" where
  "getTimestamps r =
     map (\<lambda>i. let time = js_floor (f64_mul (f64_div (num i) (num NUM_TIME_MARKERS)) (totalDuration r));
                   label = formatDuration time;
                   pos = f64_add (labelWidth r)
                           (timeToChars r (f64_mul (f64_div (num i) (num NUM_TIME_MARKERS)) (totalDuration r)))
               in (pos, label))
       [0 ..< Suc NUM_TIME_MARKERS]"

definition getTaskBarBounds :: "TimelineRenderer \<Rightarrow> SummaryTask \<Rightarrow> jsnum \<times> jsnum" where
  "getTaskBarBounds r task =
     (let taskStart = f64_sub (tnum (exec_startTime task)) (startTime r);
          taskDuration = f64_sub (tnum (exec_endTime task)) (tnum (exec_startTime task));
          barStart = timeToChars r taskStart;
          barWidth = js_max2 MIN_BAR_WIDTH (timeToChars r taskDuration);
          barEnd = f64_add barStart barWidth
      in (barStart, barEnd))"

section \<open>Rendered text\<close>

text \<open>
  A visible character is an ASCII character, the box-drawing bar \<^verbatim>\<open>U+2502\<close> or the
  no-break space \<^verbatim>\<open>U+00A0\<close>; each takes one column. A line is a sequence of pieces:
  \<open>Styled st t\<close> is \<^verbatim>\<open>styleText(st, t)\<close>, \<open>Painted c t\<close> is \<open>t\<close> between the colour
  escape \<open>c\<close> and the reset \<^verbatim>\<open>ESC[0m\<close>, and \<open>Raw t\<close> is \<open>t\<close> itself. The escape
  sequences take no column.
\<close>

datatype glyph = Ch char | VBar | Nbsp

datatype style = Dim | Gray

datatype piece = Styled style "glyph list" | Painted nat "glyph list" | Raw "glyph list"

fun glyphs :: "piece \<Rightarrow> glyph list" where
  "glyphs (Styled st t) = t"
| "glyphs (Painted c t) = t"
| "glyphs (Raw t) = t"

definition visible :: "piece list \<Rightarrow> glyph list" where
  "visible line = concat (map glyphs line)"

datatype js_error = RangeError

text \<open>\<^verbatim>\<open>String.prototype.padEnd\<close> with a space: a target length that is not above the
  length of the string (also \<^verbatim>\<open>NaN\<close> and \<^verbatim>\<open>-Infinity\<close>) leaves the string as it is.
  The target is \<open>labelWidth\<close>, which is at most \<open>MAX_LABEL_WIDTH\<close>.\<close>

definition padEnd :: "string \<Rightarrow> jsnum \<Rightarrow> string" where
  "padEnd s n = (case n of Fin q \<Rightarrow> s @ replicate (nat \<lfloor>q\<rfloor> - length s) CHR '' '' | _ \<Rightarrow> s)"

text \<open>\<^verbatim>\<open>String.prototype.repeat\<close> of one character: a negative or infinite count
  throws \<^verbatim>\<open>RangeError\<close>, \<^verbatim>\<open>NaN\<close> counts as zero, a fraction is truncated.\<close>

definition js_repeat :: "glyph \<Rightarrow> jsnum \<Rightarrow> js_error + glyph list" where
  "js_repeat c n =
     (case n of
        Fin q \<Rightarrow> if q \<le> - 1 then Inl RangeError else Inr (replicate (nat \<lfloor>q\<rfloor>) c)
      | NaN \<Rightarrow> Inr []
      | _ \<Rightarrow> Inl RangeError)"

section \<open>Rows\<close>

text \<open>The condition under which the pending label is written at column \<open>i\<close>: there is
  a non-empty pending label, \<open>i\<close> is no marker, and no marker lies strictly between
  \<open>i\<close> and the end of the label.\<close>

definition hasConflict :: "jsnum list \<Rightarrow> nat \<Rightarrow> string \<Rightarrow> bool" where
  "hasConflict markerPositions i pendingLabel =
     (let labelEnd = num (i + length pendingLabel)
      in list_ex (\<lambda>pos. js_gt pos (num i) \<and> js_lt pos labelEnd) markerPositions)"

definition placesLabel :: "jsnum list \<Rightarrow> nat \<Rightarrow> string option \<Rightarrow> bool" where
  "placesLabel markerPositions i pendingLabel =
     (case pendingLabel of
        None \<Rightarrow> False
      | Some l \<Rightarrow> l \<noteq> [] \<and> \<not> array_includes markerPositions (num i) \<and>
                  \<not> hasConflict markerPositions i l)"

text \<open>The character of the timeline at column \<open>i\<close>.\<close>

definition timelineChar :: "jsnum list \<Rightarrow> jsnum \<Rightarrow> jsnum \<Rightarrow> nat \<Rightarrow> style \<Rightarrow> nat \<Rightarrow> piece" where
  "timelineChar markerPositions barStart barEnd color dimst i =
     (let isMarker = array_includes markerPositions (num i);
          isInBar = js_ge (num i) barStart \<and> js_lt (num i) barEnd
      in if isInBar then (if isMarker then Painted color [VBar] else Painted color [Nbsp])
         else (if isMarker then Styled dimst [VBar] else Raw [Nbsp]))"

text \<open>The loop over the columns \<open>0, \<dots>, width\<close>. Its state is the column \<open>i\<close>, the
  line so far and the pending label. It does not end when \<open>width\<close> is \<^verbatim>\<open>Infinity\<close>.\<close>

partial_function (option) renderTaskRow_loop ::
  "jsnum list \<Rightarrow> jsnum \<Rightarrow> jsnum \<Rightarrow> jsnum \<Rightarrow> nat \<Rightarrow> style \<Rightarrow> string \<Rightarrow>
   nat \<Rightarrow> piece list \<Rightarrow> string option \<Rightarrow> (piece list \<times> string option) option" where
  "renderTaskRow_loop markerPositions barStart barEnd width color dimst durationLabel i line pendingLabel =
     (if js_le (num i) width then
        (if placesLabel markerPositions i pendingLabel then
           renderTaskRow_loop markerPositions barStart barEnd width color dimst durationLabel
             (Suc (i + (length (the pendingLabel) - 1)))
             (line @ [Styled dimst (map Ch (the pendingLabel))])
             None
         else
           renderTaskRow_loop markerPositions barStart barEnd width color dimst durationLabel
             (Suc i)
             (line @ [timelineChar markerPositions barStart barEnd color dimst i])
             (if js_eq (num i) barEnd \<and> pendingLabel = None then Some durationLabel
              else pendingLabel))
      else Some (line, pendingLabel))"

declare renderTaskRow_loop.simps [code]

definition flushLabel :: "style \<Rightarrow> piece list \<times> string option \<Rightarrow> piece list" where
  "flushLabel dimst st =
     (case snd st of
        None \<Rightarrow> fst st
      | Some l \<Rightarrow> if l \<noteq> [] then fst st @ [Styled dimst (map Ch l)] else fst st)"

definition renderTaskRow ::
  "TimelineRenderer \<Rightarrow> style \<Rightarrow> SummaryTask \<Rightarrow> jsnum list \<Rightarrow> piece list option" where
  "renderTaskRow r dimst task markerPositions =
     (let color = getTaskColor r task;
          label = padEnd (taskId task) (labelWidth r);
          duration = f64_sub (tnum (exec_endTime task)) (tnum (exec_startTime task));
          durationLabel = formatDuration duration;
          (barStart, barEnd) = getTaskBarBounds r task;
          width = timeToChars r (totalDuration r);
          line = [Styled Gray (map Ch label)]
      in map_option (flushLabel dimst)
           (renderTaskRow_loop markerPositions barStart barEnd width color dimst durationLabel
              0 line None))"

section \<open>The time axis\<close>

abbreviation Space :: glyph where
  "Space \<equiv> Ch CHR '' ''"

text \<open>The first loop walks the columns and the timestamps together. Its state is
  \<open>currentPos\<close>, \<open>tsIndex\<close>, the marker line and the label line. When \<open>currentPos\<close> is
  beyond the position of the current timestamp, neither branch of the source applies and
  the state stays as it is: the loop does not end.\<close>

partial_function (option) renderTimeAxis_loop1 ::
  "jsnum \<Rightarrow> (jsnum \<times> string) list \<Rightarrow> jsnum \<Rightarrow> nat \<Rightarrow> glyph list \<Rightarrow> glyph list \<Rightarrow>
   (jsnum \<times> nat \<times> glyph list \<times> glyph list) option" where
  "renderTimeAxis_loop1 bound timestamps currentPos tsIndex markerLine labelLine =
     (if js_le currentPos bound \<and> tsIndex < length timestamps then
        (let ts = timestamps ! tsIndex in
         if js_lt currentPos (fst ts) then
           renderTimeAxis_loop1 bound timestamps (js_add currentPos (Fin 1)) tsIndex
             (markerLine @ [Space]) (labelLine @ [Space])
         else if js_eq currentPos (fst ts) then
           (let currentPos' = js_add currentPos (Fin 1);
                isLastTimestamp = (tsIndex = length timestamps - 1);
                spaceAvailable =
                  (if Suc tsIndex < length timestamps
                   then js_sub (fst (timestamps ! Suc tsIndex)) currentPos' else PInf)
            in if isLastTimestamp \<or> js_ge spaceAvailable (num (length (snd ts) + 1)) then
                 renderTimeAxis_loop1 bound timestamps
                   (js_add currentPos' (num (length (snd ts)))) (Suc tsIndex)
                   (markerLine @ [VBar] @ replicate (length (snd ts)) Space)
                   (labelLine @ [VBar] @ map Ch (snd ts))
               else
                 renderTimeAxis_loop1 bound timestamps currentPos' (Suc tsIndex)
                   (markerLine @ [VBar]) (labelLine @ [VBar]))
         else
           renderTimeAxis_loop1 bound timestamps currentPos tsIndex markerLine labelLine)
      else Some (currentPos, tsIndex, markerLine, labelLine))"

declare renderTimeAxis_loop1.simps [code]

text \<open>The second loop fills the lines up to the final grid line.\<close>

partial_function (option) renderTimeAxis_loop2 ::
  "jsnum \<Rightarrow> jsnum \<Rightarrow> glyph list \<Rightarrow> glyph list \<Rightarrow> (glyph list \<times> glyph list) option" where
  "renderTimeAxis_loop2 bound currentPos markerLine labelLine =
     (if js_le currentPos bound then
        (if js_eq currentPos bound then
           renderTimeAxis_loop2 bound (js_add currentPos (Fin 1))
             (markerLine @ [VBar]) (labelLine @ [VBar])
         else
           renderTimeAxis_loop2 bound (js_add currentPos (Fin 1))
             (markerLine @ [Space]) (labelLine @ [Space]))
      else Some (markerLine, labelLine))"

declare renderTimeAxis_loop2.simps [code]

text \<open>The result is the marker line and the label line, each styled with \<open>dimst\<close>, the value of the global \<^verbatim>\<open>dim\<close>; \<open>None\<close>
  when a loop does not end, and \<^verbatim>\<open>RangeError\<close> when \<^verbatim>\<open>" ".repeat(labelWidth)\<close>
  throws.\<close>

definition renderTimeAxis ::
  "TimelineRenderer \<Rightarrow> style \<Rightarrow> (js_error + piece list \<times> piece list) option" where
  "renderTimeAxis r dimst =
     (let timestamps = getTimestamps r;
          width = timeToChars r (totalDuration r)
      in case js_repeat Space (labelWidth r) of
           Inl e \<Rightarrow> Some (Inl e)
         | Inr pad \<Rightarrow>
             (case renderTimeAxis_loop1 (f64_add (labelWidth r) width) timestamps
                     (labelWidth r) 0 pad pad of
                None \<Rightarrow> None
              | Some (currentPos, tsIndex, markerLine, labelLine) \<Rightarrow>
                  (case renderTimeAxis_loop2 (f64_add (labelWidth r) width) currentPos
                          markerLine labelLine of
                     None \<Rightarrow> None
                   | Some (markerLine', labelLine') \<Rightarrow>
                       Some (Inr ([Styled dimst markerLine'], [Styled dimst labelLine'])))))"

section \<open>Grouping and ordering\<close>

text \<open>\<^verbatim>\<open>Array.prototype.sort\<close> with a comparator. The sort is stable (ECMAScript 2019):
  an element goes behind another only when the comparator is positive, and elements that
  compare equal keep their order.\<close>

fun js_sort_insert :: "('a \<Rightarrow> 'a \<Rightarrow> jsnum) \<Rightarrow> 'a \<Rightarrow> 'a list \<Rightarrow> 'a list" where
  "js_sort_insert cmp x [] = [x]"
| "js_sort_insert cmp x (y # ys) =
     (if js_gt (cmp x y) (Fin 0) then y # js_sort_insert cmp x ys else x # y # ys)"

definition js_sort :: "('a \<Rightarrow> 'a \<Rightarrow> jsnum) \<Rightarrow> 'a list \<Rightarrow> 'a list" where
  "js_sort cmp xs = foldr (js_sort_insert cmp) xs []"

text \<open>A \<^verbatim>\<open>Map\<close> from package to tasks keeps its keys in the order of insertion; the
  loop pushes each task to the array of its package.\<close>

fun group_push :: "SummaryTask \<Rightarrow> (string \<times> SummaryTask list) list \<Rightarrow> (string \<times> SummaryTask list) list" where
  "group_push task [] = [(package task, [task])]"
| "group_push task ((k, g) # m) =
     (if k = package task then (k, g @ [task]) # m else (k, g) # group_push task m)"

definition packageGroups :: "SummaryTask list \<Rightarrow> (string \<times> SummaryTask list) list" where
  "packageGroups tasks = foldl (\<lambda>m task. group_push task m) [] tasks"

definition byStartTime :: "SummaryTask \<Rightarrow> SummaryTask \<Rightarrow> jsnum" where
  "byStartTime a b = js_sub (tnum (exec_startTime a)) (tnum (exec_startTime b))"

definition minStart :: "SummaryTask list \<Rightarrow> jsnum" where
  "minStart tasks = Math_min (map (\<lambda>t. tnum (exec_startTime t)) tasks)"

definition byMinStart :: "string \<times> SummaryTask list \<Rightarrow> string \<times> SummaryTask list \<Rightarrow> jsnum" where
  "byMinStart a b = js_sub (minStart (snd a)) (minStart (snd b))"

definition sortedGroups :: "SummaryTask list \<Rightarrow> (string \<times> SummaryTask list) list" where
  "sortedGroups tasks =
     js_sort byMinStart (map (\<lambda>(k, g). (k, js_sort byStartTime g)) (packageGroups tasks))"

definition groupAndSortTasks :: "SummaryTask list \<Rightarrow> SummaryTask list" where
  "groupAndSortTasks tasks = concat (map snd (sortedGroups tasks))"

section \<open>render\<close>

text \<open>The rows are printed in order, then the two lines of the axis. The result is the
  lines printed and the error thrown, if any; \<open>None\<close> when a loop does not end.\<close>

fun renderRows :: "TimelineRenderer \<Rightarrow> style \<Rightarrow> jsnum list \<Rightarrow> SummaryTask list \<Rightarrow> piece list list option" where
  "renderRows r dimst markerPositions [] = Some []"
| "renderRows r dimst markerPositions (task # tasks) =
     (case renderTaskRow r dimst task markerPositions of
        None \<Rightarrow> None
      | Some row \<Rightarrow> map_option ((#) row) (renderRows r dimst markerPositions tasks))"

definition render ::
  "TimelineRenderer \<Rightarrow> style \<Rightarrow> SummaryTask list \<Rightarrow> (piece list list \<times> js_error option) option" where
  "render r dimst tasks =
     (let groupedTasks = groupAndSortTasks tasks;
          markerPositions = getMarkerPositions r
      in case renderRows r dimst markerPositions groupedTasks of
           None \<Rightarrow> None
         | Some rows \<Rightarrow>
             (case renderTimeAxis r dimst of
                None \<Rightarrow> None
              | Some (Inl e) \<Rightarrow> Some (rows, Some e)
              | Some (Inr (markerLine, labelLine)) \<Rightarrow> Some (rows @ [markerLine, labelLine], None)))"

text \<open>What \<^verbatim>\<open>main\<close> does with the tasks of the summary file.\<close>

definition main_render :: "style \<Rightarrow> SummaryTask list \<Rightarrow> (piece list list \<times> js_error option) option" where
  "main_render dimst tasks = render (new_TimelineRenderer tasks TIMELINE_WIDTH) dimst tasks"

section \<open>The cells of a row\<close>

text \<open>What holds of the cells written after the gutter, at every moment of the loop:
  they fill the columns below \<open>i\<close>; a column shows the bar glyph exactly when it is a
  marker; and a label piece covers no marker column.\<close>

definition cells_ok :: "jsnum list \<Rightarrow> style \<Rightarrow> nat \<Rightarrow> piece list \<Rightarrow> bool" where
  "cells_ok mp d i cells =
     (length (visible cells) = i \<and>
      (\<forall>c<i. (visible cells ! c = VBar) = array_includes mp (num c)) \<and>
      (\<forall>pre l post. cells = pre @ Styled d (map Ch l) # post \<and> l \<noteq> [] \<longrightarrow>
         (\<forall>k<length l. \<not> array_includes mp (num (length (visible pre) + k)))))"

text \<open>Where the duration labels of a row stand: every label piece among the cells is the
  duration label of the task, and it starts at a column behind the end of the bar.\<close>

definition labels_behind :: "jsnum \<Rightarrow> string \<Rightarrow> style \<Rightarrow> piece list \<Rightarrow> bool" where
  "labels_behind barEnd durationLabel d cells =
     (\<forall>pre l post. cells = pre @ Styled d (map Ch l) # post \<and> l \<noteq> [] \<longrightarrow>
        l = durationLabel \<and> js_lt barEnd (num (length (visible pre))))"

section \<open>Marks of the axis\<close>

text \<open>The condition under which the axis writes the label of timestamp \<open>k\<close> behind its
  separator: it is the last timestamp, or the columns up to the next timestamp hold the
  label and one more column. It is the condition of the source, taken at the moment when
  \<open>currentPos\<close> has reached the position of the timestamp.\<close>

definition labelPlaced :: "(jsnum \<times> string) list \<Rightarrow> nat \<Rightarrow> bool" where
  "labelPlaced timestamps k =
     (k = length timestamps - 1 \<or>
      js_ge (if Suc k < length timestamps
             then js_sub (fst (timestamps ! Suc k)) (js_add (fst (timestamps ! k)) (Fin 1))
             else PInf)
        (num (length (snd (timestamps ! k)) + 1)))"

text \<open>What holds of the two lines of the axis at every moment of the first loop, for
  timestamps at the finite columns \<open>pos k\<close>: the lines are \<open>c\<close> columns long, the
  loop is not beyond the timestamp \<open>k\<close> it works on, the bar glyphs are at the columns of
  the timestamps done, and the label of every timestamp done that was given its label
  stands behind its separator.\<close>

definition axis_ok ::
  "(jsnum \<times> string) list \<Rightarrow> (nat \<Rightarrow> nat) \<Rightarrow> nat \<Rightarrow> nat \<Rightarrow> glyph list \<Rightarrow> glyph list \<Rightarrow> bool" where
  "axis_ok tss pos c k ml ll =
     (k \<le> length tss \<and> length ml = c \<and> length ll = c \<and>
      (k < length tss \<longrightarrow> c \<le> pos k) \<and>
      (\<forall>m<k. pos m < c) \<and>
      (\<forall>j<c. (ml ! j = VBar) = (\<exists>m<k. j = pos m)) \<and>
      (\<forall>j<c. (ll ! j = VBar) = (\<exists>m<k. j = pos m)) \<and>
      (\<forall>m<k. labelPlaced tss m \<longrightarrow>
         Suc (pos m) + length (snd (tss ! m)) \<le> c \<and>
         take (length (snd (tss ! m))) (drop (Suc (pos m)) ll) = map Ch (snd (tss ! m))) \<and>
      (k = length tss \<longrightarrow> 0 < k \<and> c = Suc (pos (k - 1)) + length (snd (tss ! (k - 1)))))"

text \<open>The column of timestamp \<open>k\<close> of the axis, when its position is a number.\<close>

definition axisColumn :: "TimelineRenderer \<Rightarrow> nat \<Rightarrow> nat" where
  "axisColumn r k = (case fst (getTimestamps r ! k) of Fin q \<Rightarrow> nat \<lfloor>q\<rfloor> | _ \<Rightarrow> 0)"

text \<open>The column of the rightmost bar glyph of a line, if it has one.\<close>

definition rightmostBar :: "glyph list \<Rightarrow> nat option" where
  "rightmostBar gs =
     (if VBar \<in> set gs
      then Some (length gs - 1 - length (takeWhile (\<lambda>g. g \<noteq> VBar) (rev gs)))
      else None)"

section \<open>Quantities of a task list\<close>

text \<open>The earliest start, the latest end and the longest identifier of a non-empty
  task list, in which the properties below are stated.\<close>

definition firstStart :: "SummaryTask list \<Rightarrow> rat" where
  "firstStart tasks = Min ((\<lambda>t. of_int (exec_startTime t)) ` set tasks)"

definition lastEnd :: "SummaryTask list \<Rightarrow> rat" where
  "lastEnd tasks = Max ((\<lambda>t. of_int (exec_endTime t)) ` set tasks)"

definition longestId :: "SummaryTask list \<Rightarrow> nat" where
  "longestId tasks = Max ((\<lambda>t. length (taskId t)) ` set tasks)"

text \<open>The earliest start and the latest end among the tasks of a group, as integers.\<close>

definition earliestStart :: "SummaryTask list \<Rightarrow> int" where
  "earliestStart g = Min (exec_startTime ` set g)"

definition latestEnd :: "SummaryTask list \<Rightarrow> int" where
  "latestEnd g = Max (exec_endTime ` set g)"

text \<open>
  A well-formed task: its execution is an interval of epoch milliseconds, that is, start
  and end are integers that a \<^verbatim>\<open>number\<close> holds exactly (between 0 and \<open>2\<^sup>5\<^sup>3\<close>), and the
  start is not behind the end.
\<close>

definition well_formed :: "SummaryTask \<Rightarrow> bool" where
  "well_formed t =
     (0 \<le> exec_startTime t \<and> exec_startTime t \<le> exec_endTime t \<and> exec_endTime t \<le> 2 ^ 53)"

section \<open>Sample inputs\<close>

definition sample_build :: SummaryTask where
  "sample_build = \<lparr> taskId = ''a#build'', package = ''a'', exec_startTime = 0, exec_endTime = 100 \<rparr>"

definition sample_test :: SummaryTask where
  "sample_test = \<lparr> taskId = ''b#test'', package = ''b'', exec_startTime = 99, exec_endTime = 100 \<rparr>"

definition sample_instant :: SummaryTask where
  "sample_instant = \<lparr> taskId = ''a#lint'', package = ''a'', exec_startTime = 5, exec_endTime = 5 \<rparr>"

definition sample_long :: SummaryTask where
  "sample_long = \<lparr> taskId = ''abcdefghijklmnopqrstuvwxyzabcdefghijklmnopqrstuvwx'', package = ''a'',
                    exec_startTime = 0, exec_endTime = 100 \<rparr>"

section \<open>Rounding: exact results and the error of a rounded one\<close>

lemma rne_of_int: "rne (of_int n) = n"
  by (simp add: rne_def)

lemma rne_err: "\<bar>of_int (rne t) - t\<bar> \<le> 1 / 2"
proof -
  have "0 \<le> t - of_int \<lfloor>t\<rfloor>" "t - of_int \<lfloor>t\<rfloor> < 1" by linarith+
  then show ?thesis by (auto simp: rne_def Let_def abs_if not_less) linarith+
qed

lemma rne_nonneg: "0 \<le> t \<Longrightarrow> 0 \<le> rne t"
  by (auto simp: rne_def Let_def)

lemma bitlen_powi:
  assumes "0 < (p::int)"
  shows "2 powi (bitlen p - 1) \<le> (of_int p :: rat)" and "(of_int p :: rat) < 2 powi bitlen p"
proof -
  from bitlen_bounds [OF assms] have a: "2 ^ nat (bitlen p - 1) \<le> p" and b: "p < 2 ^ nat (bitlen p)"
    by simp_all
  have ge: "1 \<le> bitlen p" using assms by (auto simp: bitlen_alt_def)
  have "(of_int (2 ^ nat (bitlen p - 1)) :: rat) \<le> of_int p" using a by (simp only: of_int_le_iff)
  then show "2 powi (bitlen p - 1) \<le> (of_int p :: rat)"
    using ge by (simp add: power_int_def)
  have "(of_int p :: rat) < of_int (2 ^ nat (bitlen p))" using b by (simp only: of_int_less_iff)
  then show "(of_int p :: rat) < 2 powi bitlen p"
    using ge by (simp add: power_int_def)
qed

lemma pow2_less_iff: "((2::rat) powi a < 2 powi b) = (a < b)"
proof
  assume "(2::rat) powi a < 2 powi b"
  show "a < b"
  proof (rule ccontr)
    assume "\<not> a < b"
    then have "b \<le> a" by simp
    then have "(2::rat) powi b \<le> 2 powi a" by (intro power_int_increasing) simp_all
    with \<open>(2::rat) powi a < 2 powi b\<close> show False by simp
  qed
next
  assume "a < b"
  then show "(2::rat) powi a < 2 powi b" by (intro power_int_strict_increasing) simp_all
qed

lemma pow2_le_iff: "((2::rat) powi a \<le> 2 powi b) = (a \<le> b)"
  using pow2_less_iff [of b a] by (simp add: not_less [symmetric])

lemma pow2_split: "(2::rat) powi (a + b) = 2 powi a * 2 powi b"
  by (rule power_int_add) simp

lemma ilog2_bounds:
  assumes "0 < x"
  shows "2 powi ilog2 x \<le> x" and "x < 2 powi (ilog2 x + 1)"
proof -
  obtain p q where pq: "quotient_of x = (p, q)" by (cases "quotient_of x")
  have q: "0 < q" using quotient_of_denom_pos [OF pq] .
  have x: "x = of_int p / of_int q" using quotient_of_div [OF pq] .
  have p: "0 < p" using assms q unfolding x by (simp add: zero_less_divide_iff)
  let ?k = "bitlen p - bitlen q"
  note bp = bitlen_powi [OF p] and bq = bitlen_powi [OF q]
  have qpos: "(0::rat) < of_int q" using q by simp
  have up: "x < 2 powi (?k + 1)"
  proof -
    have "x * of_int q = of_int p" using q unfolding x by simp
    also have "\<dots> < 2 powi bitlen p" by (rule bp(2))
    also have "\<dots> = 2 powi (?k + 1) * 2 powi (bitlen q - 1)"
      by (simp add: pow2_split [symmetric])
    also have "\<dots> \<le> 2 powi (?k + 1) * of_int q"
      using bq(1) by (intro mult_left_mono) simp_all
    finally show ?thesis using qpos by simp
  qed
  have lo: "2 powi (?k - 1) \<le> x"
  proof -
    have "(2::rat) powi (?k - 1) * of_int q \<le> 2 powi (?k - 1) * 2 powi bitlen q"
      using bq(2) by (intro mult_left_mono) simp_all
    also have "\<dots> = 2 powi (bitlen p - 1)" by (simp add: pow2_split [symmetric])
    also have "\<dots> \<le> of_int p" by (rule bp(1))
    also have "\<dots> = x * of_int q" using q unfolding x by simp
    finally show ?thesis using qpos by simp
  qed
  show "2 powi ilog2 x \<le> x" using lo by (simp add: ilog2_def pq Let_def)
  show "x < 2 powi (ilog2 x + 1)" using up by (auto simp add: ilog2_def pq Let_def not_le)
qed

lemma ilog2_unique:
  assumes "0 < x" and lo: "2 powi k \<le> x" and up: "x < 2 powi (k + 1)"
  shows "ilog2 x = k"
proof -
  note b = ilog2_bounds [OF assms(1)]
  have "(2::rat) powi k < 2 powi (ilog2 x + 1)" using lo b(2) by simp
  then have "k < ilog2 x + 1" by (simp only: pow2_less_iff)
  moreover have "(2::rat) powi ilog2 x < 2 powi (k + 1)" using b(1) up by simp
  then have "ilog2 x < k + 1" by (simp only: pow2_less_iff)
  ultimately show ?thesis by simp
qed


lemma round64_zero: "round64 0 = 0"
  by (simp add: round64_def)

lemma round64_minus: "round64 (- x) = - round64 x"
  by (simp add: round64_def Let_def sgn_minus)

lemma round64_nonneg: "0 \<le> x \<Longrightarrow> 0 \<le> round64 x"
  by (simp add: round64_def Let_def rne_nonneg sgn_if)

lemma round64_abs: "\<bar>round64 x\<bar> = round64 \<bar>x\<bar>"
proof (cases "0 \<le> x")
  case True
  then show ?thesis using round64_nonneg [OF True] by simp
next
  case False
  then have "0 \<le> - x" by simp
  from round64_nonneg [OF this] False show ?thesis by (simp add: round64_minus abs_if)
qed

lemma pow2_nat: "0 \<le> j \<Longrightarrow> (2::rat) powi j = of_int (2 ^ nat j)"
  by (simp add: power_int_def)

lemma round64_exact:
  assumes m: "\<bar>m\<bar> \<le> 2 ^ 53" and k: "- 1074 \<le> k"
  shows "round64 (of_int m * 2 powi k) = of_int m * 2 powi k"
proof (cases "m = 0")
  case True
  then show ?thesis by (simp add: round64_zero)
next
  case False
  let ?x = "of_int m * (2::rat) powi k"
  let ?a = "of_int \<bar>m\<bar> * (2::rat) powi k"
  have ax: "\<bar>?x\<bar> = ?a" by (simp add: abs_mult)
  have apos: "0 < ?a" using False by simp
  define e where "e = max (ilog2 ?a) (- 1022)"
  let ?q = "(2::rat) powi (e - 52)"
  have quot: "?a / ?q = of_int \<bar>m\<bar> * 2 powi (k - e + 52)"
  proof -
    have "(2::rat) powi k = 2 powi (k - e + 52) * 2 powi (e - 52)"
      by (simp add: pow2_split [symmetric])
    then show ?thesis by simp
  qed
  have "\<exists>n::int. ?a / ?q = of_int n"
  proof (cases "0 \<le> k - e + 52")
    case True
    have "?a / ?q = of_int (\<bar>m\<bar> * 2 ^ nat (k - e + 52))"
      unfolding quot pow2_nat [OF True] by simp
    then show ?thesis by blast
  next
    case neg: False
    then have big: "k + 52 < e" by simp
    with k have "e = ilog2 ?a" unfolding e_def by linarith
    with ilog2_bounds(1) [OF apos] have "2 powi e \<le> ?a" by simp
    also have "?a \<le> 2 ^ 53 * 2 powi k"
    proof -
      have "(of_int \<bar>m\<bar> :: rat) \<le> of_int (2 ^ 53)" using m by (simp only: of_int_le_iff)
      then show ?thesis by (intro mult_right_mono) simp_all
    qed
    also have "\<dots> = 2 powi (k + 53)" by (simp add: pow2_split)
    finally have "e \<le> k + 53" by (simp only: pow2_le_iff)
    with big have e: "e = k + 53" by simp
    have "(2::rat) powi (k + 53) \<le> of_int \<bar>m\<bar> * 2 powi k"
      using \<open>2 powi e \<le> ?a\<close> unfolding e .
    then have "(2::rat) ^ 53 * 2 powi k \<le> of_int \<bar>m\<bar> * 2 powi k" by (simp add: pow2_split)
    then have "(2::rat) ^ 53 \<le> of_int \<bar>m\<bar>" by simp
    then have "(of_int (2 ^ 53) :: rat) \<le> of_int \<bar>m\<bar>" by simp
    then have "2 ^ 53 \<le> \<bar>m\<bar>" by (simp only: of_int_le_iff)
    with m have am: "\<bar>m\<bar> = 2 ^ 53" by simp
    have "k - e + 52 = - 1" using e by simp
    then have "?a / ?q = of_int \<bar>m\<bar> * 2 powi (- 1)" by (simp only: quot)
    also have "\<dots> = of_int (2 ^ 53) * (1 / 2)" by (simp only: am) (simp add: power_int_minus)
    also have "\<dots> = of_int (2 ^ 52)" by simp
    finally have "?a / ?q = of_int (2 ^ 52)" .
    then show ?thesis by blast
  qed
  then obtain n :: int where n: "?a / ?q = of_int n" by blast
  have qpos: "0 < ?q" by simp
  have "of_int (rne (?a / ?q)) * ?q = ?a"
    unfolding n rne_of_int using n qpos by (simp add: field_simps)
  then have "round64 ?x = sgn ?x * ?a"
    unfolding round64_def Let_def ax e_def by simp
  also have "\<dots> = ?x" using mult_sgn_abs [of ?x] by (simp only: ax)
  finally show ?thesis .
qed

lemma round64_of_int: "\<bar>m\<bar> \<le> 2 ^ 53 \<Longrightarrow> round64 (of_int m) = of_int m"
  using round64_exact [of m 0] by simp

lemma round64_err:
  assumes "2 powi (- 1022) \<le> \<bar>x\<bar>"
  shows "\<bar>round64 x - x\<bar> \<le> \<bar>x\<bar> / 2 ^ 53"
proof -
  let ?a = "\<bar>x\<bar>"
  have "(0::rat) < 2 powi (- 1022)" by (rule zero_less_power_int) simp
  then have apos: "0 < ?a" using assms by (rule less_le_trans)
  note b = ilog2_bounds [OF apos]
  have "(2::rat) powi (- 1022) < 2 powi (ilog2 ?a + 1)" using assms b(2) by (rule le_less_trans)
  then have "- 1022 < ilog2 ?a + 1" by (simp only: pow2_less_iff)
  then have e: "max (ilog2 ?a) (- 1022) = ilog2 ?a" by simp
  let ?q = "(2::rat) powi (ilog2 ?a - 52)"
  have qpos: "0 < ?q" by simp
  have q: "?q / 2 = 2 powi ilog2 ?a / 2 ^ 53"
  proof -
    have "(2::rat) powi ilog2 ?a = 2 powi (ilog2 ?a - 52) * 2 powi 52"
      by (simp only: pow2_split [symmetric]) simp
    then show ?thesis by simp
  qed
  have r: "round64 x = sgn x * (of_int (rne (?a / ?q)) * ?q)"
    by (simp add: round64_def Let_def e)
  have "sgn x * (of_int (rne (?a / ?q)) * ?q - ?a) =
        sgn x * (of_int (rne (?a / ?q)) * ?q) - sgn x * ?a"
    by (rule right_diff_distrib)
  also have "\<dots> = round64 x - x" by (simp only: r mult_sgn_abs)
  finally have "round64 x - x = sgn x * (of_int (rne (?a / ?q)) * ?q - ?a)" by (rule sym)
  then have "\<bar>round64 x - x\<bar> = \<bar>sgn x\<bar> * \<bar>of_int (rne (?a / ?q)) * ?q - ?a\<bar>"
    by (simp only: abs_mult)
  also have "\<dots> \<le> \<bar>of_int (rne (?a / ?q)) * ?q - ?a\<bar>"
    by (simp add: abs_sgn_eq)
  also have "of_int (rne (?a / ?q)) * ?q - ?a = (of_int (rne (?a / ?q)) - ?a / ?q) * ?q"
    using qpos by (simp add: field_simps)
  also have "\<bar>\<dots>\<bar> = \<bar>of_int (rne (?a / ?q)) - ?a / ?q\<bar> * ?q"
    using qpos by (simp add: abs_mult)
  also have "\<dots> \<le> 1 / 2 * ?q"
    using rne_err [of "?a / ?q"] qpos by (intro mult_right_mono) simp_all
  also have "\<dots> = 2 powi ilog2 ?a / 2 ^ 53" using q by simp
  also have "\<dots> \<le> ?a / 2 ^ 53" using b(1) by (simp add: divide_right_mono)
  finally show ?thesis .
qed

lemma rne_small: "0 \<le> t \<Longrightarrow> t < 1 / 2 \<Longrightarrow> rne t = 0"
proof -
  assume t: "0 \<le> t" "t < 1 / 2"
  then have "\<lfloor>t\<rfloor> = 0" by (simp add: floor_eq_iff)
  then show ?thesis using t by (simp add: rne_def)
qed

lemma round64_le_double: "\<bar>round64 x\<bar> \<le> 2 * \<bar>x\<bar>"
proof -
  let ?a = "\<bar>x\<bar>"
  define q :: rat where "q = 2 powi (max (ilog2 ?a) (- 1022) - 52)"
  have qpos: "0 < q" by (simp add: q_def)
  have r: "round64 ?a = sgn ?a * (of_int (rne (?a / q)) * q)"
    by (simp add: round64_def Let_def q_def)
  have t0: "0 \<le> ?a / q" using qpos by simp
  show ?thesis
  proof (cases "?a / q < 1 / 2")
    case True
    then show ?thesis unfolding round64_abs r rne_small [OF t0 True] by simp
  next
    case False
    then have half: "q / 2 \<le> ?a" using qpos by (simp add: field_simps)
    have "of_int (rne (?a / q)) \<le> ?a / q + 1 / 2"
      using rne_err [of "?a / q"] by linarith
    then have "of_int (rne (?a / q)) * q \<le> (?a / q + 1 / 2) * q"
      using qpos by (intro mult_right_mono) simp_all
    also have "\<dots> = ?a + q / 2" using qpos by (simp add: field_simps)
    also have "\<dots> \<le> 2 * ?a" using half by simp
    finally have "of_int (rne (?a / q)) * q \<le> 2 * ?a" .
    moreover have "0 \<le> of_int (rne (?a / q)) * q"
      using rne_nonneg [OF t0] qpos by simp
    ultimately show ?thesis unfolding round64_abs r
      by (cases "x = 0") (simp_all add: sgn_if)
  qed
qed

subsection \<open>The error of the scale\<close>

lemma normal_ge: "1 / 2 ^ 60 \<le> x \<Longrightarrow> 2 powi (- 1022) \<le> \<bar>x :: rat\<bar>"
proof -
  assume x: "1 / 2 ^ 60 \<le> x"
  have "(2::rat) powi (- 1022) \<le> 2 powi (- 60)" by (simp only: pow2_le_iff)
  also have "(2::rat) powi (- 60) = 1 / 2 ^ 60" by (simp add: power_int_minus_divide)
  finally show ?thesis using x by linarith
qed

lemma normal_ge_abs: "1 / 2 ^ 60 \<le> \<bar>x\<bar> \<Longrightarrow> 2 powi (- 1022) \<le> \<bar>x :: rat\<bar>"
  using normal_ge [of "\<bar>x\<bar>"] by simp

lemma rel_err_mult:
  fixes a b a' b' :: rat
  assumes a: "\<bar>a' - a\<bar> \<le> e * \<bar>a\<bar>" and b: "\<bar>b' - b\<bar> \<le> d * \<bar>b\<bar>"
    and e: "0 \<le> e" and d: "0 \<le> d"
  shows "\<bar>a' * b' - a * b\<bar> \<le> (e + d + e * d) * \<bar>a * b\<bar>"
proof -
  have "a' * b' - a * b = (a' - a) * (b' - b) + (a' - a) * b + a * (b' - b)"
    by (simp add: algebra_simps)
  then have "\<bar>a' * b' - a * b\<bar> \<le> \<bar>a' - a\<bar> * \<bar>b' - b\<bar> + \<bar>a' - a\<bar> * \<bar>b\<bar> + \<bar>a\<bar> * \<bar>b' - b\<bar>"
    using abs_triangle_ineq [of "(a' - a) * (b' - b) + (a' - a) * b" "a * (b' - b)"]
      abs_triangle_ineq [of "(a' - a) * (b' - b)" "(a' - a) * b"]
    by (simp add: abs_mult)
  also have "\<dots> \<le> (e * \<bar>a\<bar>) * (d * \<bar>b\<bar>) + (e * \<bar>a\<bar>) * \<bar>b\<bar> + \<bar>a\<bar> * (d * \<bar>b\<bar>)"
    using a b e d by (intro add_mono mult_mono) simp_all
  also have "\<dots> = (e + d + e * d) * \<bar>a * b\<bar>"
    by (simp add: algebra_simps abs_mult)
  finally show ?thesis .
qed

text \<open>The scale of a chart of total duration \<open>D\<close>, and a time scaled to a column: the
  scale is within a relative error of \<open>2\<^sup>-\<^sup>5\<^sup>3\<close>, and a scaled fraction \<open>t\<close> of the duration is within a quarter
  of a column of \<open>100 t\<close>.\<close>

lemma scale_err:
  fixes D :: rat
  assumes D: "1 \<le> D" "D \<le> 2 ^ 53"
  shows "\<bar>round64 (100 / D) - 100 / D\<bar> \<le> 1 / 2 ^ 53 * \<bar>100 / D\<bar>"
proof -
  have "1 / 2 ^ 60 \<le> 100 / D" using D by (simp add: field_simps)
  from round64_err [OF normal_ge [OF this]] show ?thesis by simp
qed

lemma scale_pos:
  fixes D :: rat
  assumes D: "1 \<le> D" "D \<le> 2 ^ 53"
  shows "0 \<le> round64 (100 / D)" and "D * round64 (100 / D) \<le> 101"
proof -
  have q: "0 \<le> 100 / D" using D by simp
  show "0 \<le> round64 (100 / D)" by (rule round64_nonneg [OF q])
  from scale_err [OF D] q have "round64 (100 / D) \<le> 100 / D + 1 / 2 ^ 53 * (100 / D)"
    by (simp add: abs_le_iff)
  then have "D * round64 (100 / D) \<le> D * (100 / D + 1 / 2 ^ 53 * (100 / D))"
    using D by (intro mult_left_mono) simp_all
  also have "\<dots> = 100 + 100 / 2 ^ 53" using D by (simp add: field_simps)
  also have "\<dots> \<le> 101" by simp
  finally show "D * round64 (100 / D) \<le> 101" .
qed

lemma scaled_bounds:
  fixes D s :: rat
  assumes D: "1 \<le> D" "D \<le> 2 ^ 53" and s: "0 \<le> s" "s \<le> 2 * D"
  shows "0 \<le> s * round64 (100 / D)" and "s * round64 (100 / D) \<le> 202"
    and "0 \<le> round64 (s * round64 (100 / D))" and "round64 (s * round64 (100 / D)) \<le> 404"
proof -
  note c = scale_pos [OF D]
  show p: "0 \<le> s * round64 (100 / D)" using s(1) c(1) by simp
  show "0 \<le> round64 (s * round64 (100 / D))" by (rule round64_nonneg [OF p])
  have "s * round64 (100 / D) \<le> 2 * D * round64 (100 / D)"
    using s(2) c(1) by (rule mult_right_mono)
  with c(2) show le: "s * round64 (100 / D) \<le> 202" by simp
  from round64_le_double [of "s * round64 (100 / D)"] p
  have "round64 (s * round64 (100 / D)) \<le> 2 * (s * round64 (100 / D))" by (simp add: abs_le_iff)
  with le show "round64 (s * round64 (100 / D)) \<le> 404" by simp
qed

lemma scaled_err:
  fixes D t :: rat
  assumes D: "1 \<le> D" "D \<le> 2 ^ 53" and t: "1 / 8 \<le> t" "t \<le> 1"
  shows "\<bar>round64 (round64 (t * D) * round64 (100 / D)) - 100 * t\<bar> \<le> 1 / 4"
proof -
  let ?c = "round64 (100 / D)"
  let ?x = "round64 (t * D)"
  let ?B = "100 * t"
  have B: "25 / 2 \<le> ?B" "?B \<le> 100" using t by simp_all
  have "1 / 2 ^ 60 \<le> t * D"
  proof -
    have "1 / 8 * 1 \<le> t * D" using t D by (intro mult_mono) simp_all
    then show ?thesis by simp
  qed
  from round64_err [OF normal_ge [OF this]]
  have x: "\<bar>?x - t * D\<bar> \<le> 1 / 2 ^ 53 * \<bar>t * D\<bar>" by simp
  have td: "t * D * (100 / D) = ?B" using D by simp
  from rel_err_mult [OF x scale_err [OF D]]
  have "\<bar>?x * ?c - ?B\<bar> \<le> (1 / 2 ^ 53 + 1 / 2 ^ 53 + 1 / 2 ^ 53 * (1 / 2 ^ 53)) * \<bar>?B\<bar>"
    by (simp only: td) simp
  also have "\<dots> \<le> 1 / 2 ^ 50 * \<bar>?B\<bar>" by (intro mult_right_mono) simp_all
  finally have xc0: "\<bar>?x * ?c - ?B\<bar> \<le> ?B / 2 ^ 50" using B by simp
  define p where "p = ?x * ?c"
  define B where "B = ?B"
  have Bb: "25 / 2 \<le> B" "B \<le> 100" using t by (simp_all add: B_def)
  define A where "A = B / 2 ^ 50"
  have A: "0 \<le> A" "A \<le> 1 / 1000" using Bb by (simp_all add: A_def)
  have xc: "\<bar>p - B\<bar> \<le> A" using xc0 by (simp only: p_def B_def A_def)
  have lo: "1 \<le> p" using xc Bb A by linarith
  have hi: "\<bar>p\<bar> \<le> 2 * B" using xc Bb A by linarith
  have "1 / 2 ^ 60 \<le> p" using lo by simp
  from round64_err [OF normal_ge [OF this]]
  have "\<bar>round64 p - p\<bar> \<le> \<bar>p\<bar> / 2 ^ 53" .
  with hi have "\<bar>round64 p - p\<bar> \<le> 2 * B / 2 ^ 53" by simp
  also have "\<dots> \<le> 1 / 1000" using Bb by simp
  finally have y: "\<bar>round64 p - p\<bar> \<le> 1 / 1000" .
  have "\<bar>round64 p - B\<bar> \<le> 1 / 4" using y xc A by linarith
  then show ?thesis by (simp only: p_def B_def)
qed


text \<open>The columns of the eighths of the duration are strictly increasing.\<close>

lemma scaled_increasing:
  fixes D :: rat
  assumes D: "1 \<le> D" "D \<le> 2 ^ 53" and k: "k < 8"
  shows "\<lfloor>round64 (round64 (of_nat k / 8 * D) * round64 (100 / D))\<rfloor>
         < \<lfloor>round64 (round64 (of_nat (Suc k) / 8 * D) * round64 (100 / D))\<rfloor>"
proof -
  define Y where "Y j = round64 (round64 (of_nat j / 8 * D) * round64 (100 / D))" for j :: nat
  have near: "\<bar>Y j - 100 * (of_nat j / 8)\<bar> \<le> 1 / 4" if "1 \<le> j" "j \<le> 8" for j
  proof -
    have "(of_nat 1 :: rat) \<le> of_nat j" "(of_nat j :: rat) \<le> of_nat 8"
      using that by (simp_all only: of_nat_le_iff)
    then have t: "1 / 8 \<le> (of_nat j :: rat) / 8" "(of_nat j :: rat) / 8 \<le> 1" by simp_all
    from scaled_err [OF D t] show ?thesis by (simp only: Y_def)
  qed
  have step: "Y k + 1 \<le> Y (Suc k)"
  proof (cases "k = 0")
    case True
    have "Y 0 = 0" by (simp add: Y_def round64_zero)
    moreover from near [of 1] have "\<bar>Y 1 - 25 / 2\<bar> \<le> 1 / 4" by simp
    then have "12 \<le> Y 1" by linarith
    ultimately show ?thesis by (simp add: True)
  next
    case False
    then have "1 \<le> k" "k \<le> 8" using k by simp_all
    from near [OF this] have a: "Y k \<le> 100 * (of_nat k / 8) + 1 / 4" by linarith
    have "1 \<le> Suc k" "Suc k \<le> 8" using k by simp_all
    from near [OF this] have b: "100 * (of_nat (Suc k) / 8) - 1 / 4 \<le> Y (Suc k)" by linarith
    have "100 * ((of_nat (Suc k) :: rat) / 8) = 100 * (of_nat k / 8) + 25 / 2" by (simp add: field_simps)
    with a b show ?thesis by linarith
  qed
  have "\<lfloor>Y k\<rfloor> + 1 = \<lfloor>Y k + 1\<rfloor>" by simp
  also have "\<dots> \<le> \<lfloor>Y (Suc k)\<rfloor>" by (rule floor_mono [OF step])
  finally show ?thesis by (simp add: Y_def)
qed

subsection \<open>Rounded operations\<close>

lemma binary64_special [simp]: "binary64 PInf = PInf" "binary64 NInf = NInf" "binary64 NaN = NaN"
  by (simp_all add: binary64_def)

lemma binary64_Fin:
  assumes "\<bar>x\<bar> \<le> 2 ^ 1022"
  shows "binary64 (Fin x) = Fin (round64 x)"
proof -
  have "\<bar>round64 x\<bar> \<le> 2 * \<bar>x\<bar>" by (rule round64_le_double)
  also have "\<dots> \<le> 2 * 2 ^ 1022" using assms by simp
  also have "\<dots> < (2::rat) ^ 1024" by simp
  finally show ?thesis by (simp add: binary64_def Let_def)
qed

lemma binary64_int: "\<bar>m\<bar> \<le> 2 ^ 53 \<Longrightarrow> binary64 (Fin (of_int m)) = Fin (of_int m)"
proof -
  assume m: "\<bar>m\<bar> \<le> 2 ^ 53"
  then have "(of_int \<bar>m\<bar> :: rat) \<le> of_int (2 ^ 53)" by (simp only: of_int_le_iff)
  then have "\<bar>of_int m :: rat\<bar> \<le> 2 ^ 1022" by simp
  from binary64_Fin [OF this] show ?thesis by (simp only: round64_of_int [OF m])
qed

lemma binary64_nat: "n \<le> 2 ^ 53 \<Longrightarrow> binary64 (num n) = num n"
  using binary64_int [of "int n"] by simp

lemma binary64_0 [simp]: "binary64 (Fin 0) = Fin 0"
  using binary64_int [of 0] by simp

lemma binary64_1 [simp]: "binary64 (Fin 1) = Fin 1"
  using binary64_int [of 1] by simp

lemma binary64_numeral [simp]:
  "(numeral k :: int) \<le> 2 ^ 53 \<Longrightarrow> binary64 (Fin (numeral k)) = Fin (numeral k)"
  using binary64_int [of "numeral k"] by simp

lemma binary64_eighths:
  assumes "\<bar>m\<bar> \<le> 2 ^ 53"
  shows "binary64 (Fin (of_int m / 8)) = Fin (of_int m / 8)"
proof -
  have e: "(of_int m :: rat) / 8 = of_int m * 2 powi (- 3)" by (simp add: power_int_minus_divide)
  have r: "round64 (of_int m / 8) = of_int m / 8"
    unfolding e by (rule round64_exact [OF assms]) simp
  have "(of_int \<bar>m\<bar> :: rat) \<le> of_int (2 ^ 53)" using assms by (simp only: of_int_le_iff)
  then have "\<bar>(of_int m :: rat) / 8\<bar> \<le> 2 ^ 1022" by simp
  from binary64_Fin [OF this] show ?thesis by (simp only: r)
qed

section \<open>Printing durations\<close>

lemma show_nat_small: "n < 10 \<Longrightarrow> show_nat n = [digit_char n]"
  by (subst show_nat.simps) simp

lemma show_nat_big: "\<not> n < 10 \<Longrightarrow> show_nat n = show_nat (n div 10) @ [digit_char (n mod 10)]"
  by (subst show_nat.simps) simp

lemma floor_nat_div: "\<lfloor>(of_nat n :: rat) / of_nat d\<rfloor> = int (n div d)"
  by (simp add: floor_divide_of_nat_eq)

lemma js_toString_nat: "js_toString (num n) = show_nat n"
  by simp

lemma frac_digits_zero: "frac_digits k 0 = []"
  by (cases k) simp_all

lemma frac_digits_tenth:
  assumes "0 < d"
  shows "frac_digits (Suc k) (of_nat d / 10) = [digit_char d]"
proof -
  have nz: "(of_nat d :: rat) / 10 \<noteq> 0" using assms by simp
  have r10: "10 * ((of_nat d :: rat) / 10) = of_nat d" by simp
  show ?thesis
    using nz by (simp add: r10 frac_digits_zero)
qed

lemma frac_digits_hundredths:
  assumes "0 < h" "h < 100"
  shows "frac_digits 20 (of_nat h / 100) =
         (if h mod 10 = 0 then [digit_char (h div 10)]
          else [digit_char (h div 10), digit_char (h mod 10)])"
proof -
  have tw: "(20::nat) = Suc (Suc 18)" by simp
  have nz: "(of_nat h :: rat) / 100 \<noteq> 0" using assms by simp
  have t10: "10 * ((of_nat h :: rat) / 100) = of_nat h / of_nat 10" by simp
  have d1: "\<lfloor>10 * ((of_nat h :: rat) / 100)\<rfloor> = int (h div 10)"
    unfolding t10 by (rule floor_nat_div)
  have "(of_nat h :: rat) = of_nat (10 * (h div 10) + h mod 10)" by simp
  then have split: "(of_nat h :: rat) = 10 * of_nat (h div 10) + of_nat (h mod 10)"
    by (simp only: of_nat_add of_nat_mult of_nat_numeral)
  have r1: "10 * ((of_nat h :: rat) / 100) - of_int (int (h div 10)) = of_nat (h mod 10) / 10"
    by (subst split) (simp add: field_simps)
  have r10: "10 * ((of_nat (h mod 10) :: rat) / 10) = of_nat (h mod 10)" by simp
  have step: "frac_digits 20 (of_nat h / 100) =
          digit_char (h div 10) # frac_digits (Suc 18) (of_nat (h mod 10) / 10)"
    unfolding tw using nz by (simp only: frac_digits.simps d1 r1 if_False nat_int)
  show ?thesis
  proof (cases "h mod 10 = 0")
    case True
    then show ?thesis by (simp add: step frac_digits_zero)
  next
    case False
    then have "0 < h mod 10" by simp
    then have "frac_digits (Suc 18) (of_nat (h mod 10) / 10) = [digit_char (h mod 10)]"
      by (rule frac_digits_tenth)
    then show ?thesis using False by (simp only: step if_False)
  qed
qed

lemma js_toString_hundredths:
  "js_toString (Fin (of_nat k / 100)) = show_nat (k div 100) @ hundredths (k mod 100)"
proof -
  have fl: "\<lfloor>(of_nat k :: rat) / 100\<rfloor> = int (k div 100)"
    using floor_nat_div [of k 100] by simp
  have "(of_nat k :: rat) = of_nat (100 * (k div 100) + k mod 100)" by simp
  then have split: "(of_nat k :: rat) = 100 * of_nat (k div 100) + of_nat (k mod 100)"
    by (simp only: of_nat_add of_nat_mult of_nat_numeral)
  have fr: "(of_nat k :: rat) / 100 - of_int (int (k div 100)) = of_nat (k mod 100) / 100"
    by (subst split) (simp add: field_simps)
  have nn: "\<not> (of_nat k :: rat) / 100 < 0" by simp
  have ab: "\<bar>(of_nat k :: rat) / 100\<bar> = of_nat k / 100" by simp
  have eqz: "((of_nat k :: rat) / 100 = of_int (int (k div 100))) = (k mod 100 = 0)"
  proof -
    have "((of_nat k :: rat) / 100 = of_int (int (k div 100))) =
          ((of_nat k :: rat) / 100 - of_int (int (k div 100)) = 0)" by simp
    also have "\<dots> = ((of_nat (k mod 100) :: rat) / 100 = 0)" by (simp only: fr)
    also have "\<dots> = (k mod 100 = 0)" by (simp)
    finally show ?thesis .
  qed
  show ?thesis
  proof (cases "k mod 100 = 0")
    case True
    then show ?thesis
      by (simp only: js_toString.simps nn ab fl eqz if_True if_False nat_int hundredths_def) simp
  next
    case False
    then have h: "0 < k mod 100" "k mod 100 < 100" by simp_all
    show ?thesis
      using False frac_digits_hundredths [OF h]
      by (simp only: js_toString.simps nn ab fl eqz fr if_True if_False nat_int hundredths_def)
         (simp)
  qed
qed

lemma formatDuration_nat:
  "formatDuration (num n) =
     (if n < 1000 then show_nat n @ ''ms''
      else show_nat (n div 1000) @ hundredths ((n div 10) mod 100) @ ''s'')"
proof (cases "n < 1000")
  case True
  then show ?thesis by (simp add: formatDuration_def)
next
  case False
  have fl: "\<lfloor>(of_nat n :: rat) / 10\<rfloor> = int (n div 10)"
    using floor_nat_div [of n 10] by simp
  have sec: "js_div (js_floor (js_div (num n) (Fin 10))) (Fin 100) = Fin (of_nat (n div 10) / 100)"
    by (simp add: fl)
  have dd: "n div 10 div 100 = n div 1000" by (simp add: div_mult2_eq)
  show ?thesis
    using False
    by (simp only: formatDuration_def sec Let_def js_toString_hundredths dd) simp
qed

text \<open>
  C2, as the specification states it, fails: \<^verbatim>\<open>formatDuration(1000)\<close> is \<^verbatim>\<open>"1s"\<close>,
  not \<^verbatim>\<open>"1.00s"\<close>, since the number of seconds is printed by a template literal,
  which drops trailing zeros.
\<close>

theorem formatDuration_two_decimals_counterexample:
  "formatDuration (Fin 1000) = ''1s'' \<and> formatDuration (Fin 1000) \<noteq> ''1.00s'' \<and>
   formatDuration (Fin 1005) \<noteq> ''1.00s''"
  by code_simp

text \<open>
  C2, amended: for every non-negative integer \<open>n\<close> of milliseconds,
  \<^verbatim>\<open>formatDuration(n)\<close> is the integer followed by \<^verbatim>\<open>ms\<close> when \<open>n < 1000\<close>; otherwise it
  is the number of seconds truncated (not rounded) to hundredths, printed without trailing
  zeros (so with zero, one or two decimals), followed by \<^verbatim>\<open>s\<close>. In particular 1000 and
  1005 give \<^verbatim>\<open>"1s"\<close> and 1999 gives \<^verbatim>\<open>"1.99s"\<close>.
\<close>

theorem formatDuration_truncates:
  "formatDuration (num n) =
     (if n < 1000 then show_nat n @ ''ms''
      else show_nat (n div 1000) @ hundredths ((n div 10) mod 100) @ ''s'') \<and>
   formatDuration (Fin 1000) = ''1s'' \<and>
   formatDuration (Fin 1005) = ''1s'' \<and>
   formatDuration (Fin 1999) = ''1.99s'' \<and>
   formatDuration (Fin 0) = ''0ms'' \<and>
   formatDuration (Fin 999) = ''999ms''"
proof -
  have a: "formatDuration (Fin 1000) = ''1s''" by code_simp
  have b: "formatDuration (Fin 1005) = ''1s''" by code_simp
  have c: "formatDuration (Fin 1999) = ''1.99s''" by code_simp
  have d: "formatDuration (Fin 0) = ''0ms''" by code_simp
  have e: "formatDuration (Fin 999) = ''999ms''" by code_simp
  show ?thesis
    by (intro conjI) (rule formatDuration_nat a b c d e)+
qed

section \<open>The state of the renderer and the bounds of a bar\<close>

lemma js_min2_Fin: "js_min2 (Fin a) (Fin b) = Fin (min a b)"
  by (auto simp: js_min2_def min_def)

lemma js_max2_Fin: "js_max2 (Fin a) (Fin b) = Fin (max a b)"
  by (auto simp: js_max2_def max_def)

lemma foldl_js_min2_Fin: "foldl js_min2 (Fin a) (map Fin qs) = Fin (Min (insert a (set qs)))"
proof (induction qs arbitrary: a)
  case Nil
  then show ?case by simp
next
  case (Cons q qs)
  have "Min (insert (min a q) (set qs)) = Min (insert a (insert q (set qs)))"
    by (cases "set qs = {}") (simp_all add: min.assoc)
  then show ?case by (simp add: js_min2_Fin Cons.IH)
qed

lemma foldl_js_max2_Fin: "foldl js_max2 (Fin a) (map Fin qs) = Fin (Max (insert a (set qs)))"
proof (induction qs arbitrary: a)
  case Nil
  then show ?case by simp
next
  case (Cons q qs)
  have "Max (insert (max a q) (set qs)) = Max (insert a (insert q (set qs)))"
    by (cases "set qs = {}") (simp_all add: max.assoc)
  then show ?case by (simp add: js_max2_Fin Cons.IH)
qed

lemma Math_min_Fin: "qs \<noteq> [] \<Longrightarrow> Math_min (map Fin qs) = Fin (Min (set qs))"
  by (cases qs) (simp_all add: Math_min_def js_min2_def foldl_js_min2_Fin)

lemma Math_max_Fin: "qs \<noteq> [] \<Longrightarrow> Math_max (map Fin qs) = Fin (Max (set qs))"
  by (cases qs) (simp_all add: Math_max_def js_max2_def foldl_js_max2_Fin)

lemma Math_min_map_Fin:
  "xs \<noteq> [] \<Longrightarrow> Math_min (map (\<lambda>x. Fin (f x)) xs) = Fin (Min (f ` set xs))"
  using Math_min_Fin [of "map f xs"] by (simp add: comp_def)

lemma Math_max_map_Fin:
  "xs \<noteq> [] \<Longrightarrow> Math_max (map (\<lambda>x. Fin (f x)) xs) = Fin (Max (f ` set xs))"
  using Math_max_Fin [of "map f xs"] by (simp add: comp_def)

lemma Math_min_starts:
  "tasks \<noteq> [] \<Longrightarrow> Math_min (map (\<lambda>t. tnum (exec_startTime t)) tasks) = Fin (firstStart tasks)"
  by (simp add: Math_min_map_Fin firstStart_def)

lemma Math_max_ends:
  "tasks \<noteq> [] \<Longrightarrow> Math_max (map (\<lambda>t. tnum (exec_endTime t)) tasks) = Fin (lastEnd tasks)"
  by (simp add: Math_max_map_Fin lastEnd_def)

lemma Math_max_lengths:
  "tasks \<noteq> [] \<Longrightarrow> Math_max (map (\<lambda>t. num (length (taskId t))) tasks) = num (longestId tasks)"
proof -
  assume ne: "tasks \<noteq> []"
  have "Max ((\<lambda>t. of_nat (length (taskId t)) :: rat) ` set tasks) =
        of_nat (Max ((\<lambda>t. length (taskId t)) ` set tasks))"
    using ne mono_Max_commute [of "of_nat :: nat \<Rightarrow> rat" "(\<lambda>t. length (taskId t)) ` set tasks"]
    by (simp add: mono_def image_image)
  then show ?thesis using ne by (simp add: Math_max_map_Fin longestId_def)
qed

lemma firstStart_int: "tasks \<noteq> [] \<Longrightarrow> firstStart tasks = of_int (earliestStart tasks)"
proof -
  assume ne: "tasks \<noteq> []"
  have "Min ((\<lambda>t. of_int (exec_startTime t) :: rat) ` set tasks) = of_int (Min (exec_startTime ` set tasks))"
    using ne mono_Min_commute [of "of_int :: int \<Rightarrow> rat" "exec_startTime ` set tasks"]
    by (simp add: mono_def image_image)
  then show ?thesis by (simp add: firstStart_def earliestStart_def)
qed

lemma lastEnd_int: "tasks \<noteq> [] \<Longrightarrow> lastEnd tasks = of_int (latestEnd tasks)"
proof -
  assume ne: "tasks \<noteq> []"
  have "Max ((\<lambda>t. of_int (exec_endTime t) :: rat) ` set tasks) = of_int (Max (exec_endTime ` set tasks))"
    using ne mono_Max_commute [of "of_int :: int \<Rightarrow> rat" "exec_endTime ` set tasks"]
    by (simp add: mono_def image_image)
  then show ?thesis by (simp add: lastEnd_def latestEnd_def)
qed

lemma renderer_fields:
  assumes "tasks \<noteq> []"
  shows "startTime (new_TimelineRenderer tasks W) = tnum (earliestStart tasks)"
    and "endTime (new_TimelineRenderer tasks W) = tnum (latestEnd tasks)"
    and "totalDuration (new_TimelineRenderer tasks W) =
           binary64 (tnum (latestEnd tasks - earliestStart tasks))"
    and "msToChars (new_TimelineRenderer tasks W) =
           f64_div W (binary64 (tnum (latestEnd tasks - earliestStart tasks)))"
    and "labelWidth (new_TimelineRenderer tasks W) = num (min (longestId tasks + 2) 45)"
  using assms
  by (simp_all add: new_TimelineRenderer_def Let_def Math_min_starts Math_max_ends Math_max_lengths
        f64_sub_def js_sub_def js_min2_Fin MAX_LABEL_WIDTH_def firstStart_int lastEnd_int)

lemma earliestStart_le: "t \<in> set tasks \<Longrightarrow> earliestStart tasks \<le> exec_startTime t"
  by (simp add: earliestStart_def)

lemma latestEnd_ge: "t \<in> set tasks \<Longrightarrow> exec_endTime t \<le> latestEnd tasks"
  by (simp add: latestEnd_def)

lemma f64_sub_int: "\<bar>a - b\<bar> \<le> 2 ^ 53 \<Longrightarrow> f64_sub (tnum a) (tnum b) = tnum (a - b)"
proof -
  assume "\<bar>a - b\<bar> \<le> 2 ^ 53"
  from binary64_int [OF this] show ?thesis by (simp add: f64_sub_def js_sub_def)
qed

lemma f64_add_int: "\<bar>a + b\<bar> \<le> 2 ^ 53 \<Longrightarrow> f64_add (tnum a) (tnum b) = tnum (a + b)"
proof -
  assume "\<bar>a + b\<bar> \<le> 2 ^ 53"
  from binary64_int [OF this] show ?thesis by (simp add: f64_add_def)
qed

lemma js_max2_int: "js_max2 (tnum a) (tnum b) = tnum (max a b)"
  by (simp add: js_max2_Fin max_def)

text \<open>The task list of a chart: not empty, and every task well-formed. Its total duration
  is an integer between 0 and \<open>2\<^sup>5\<^sup>3\<close>, which the subtraction does not round.\<close>

lemma duration_range:
  assumes ne: "tasks \<noteq> []" and wf: "\<forall>t\<in>set tasks. well_formed t"
  shows "0 \<le> earliestStart tasks" and "0 \<le> latestEnd tasks - earliestStart tasks"
    and "latestEnd tasks - earliestStart tasks \<le> 2 ^ 53"
proof -
  have "earliestStart tasks \<in> exec_startTime ` set tasks"
    unfolding earliestStart_def using ne by (intro Min_in) simp_all
  then obtain a where a: "a \<in> set tasks" "earliestStart tasks = exec_startTime a" by auto
  have "latestEnd tasks \<in> exec_endTime ` set tasks"
    unfolding latestEnd_def using ne by (intro Max_in) simp_all
  then obtain b where b: "b \<in> set tasks" "latestEnd tasks = exec_endTime b" by auto
  from wf a(1) b(1) have wa: "well_formed a" and wb: "well_formed b" by simp_all
  show "0 \<le> earliestStart tasks" using wa by (simp add: a(2) well_formed_def)
  have "exec_startTime a \<le> exec_endTime a" using wa by (simp add: well_formed_def)
  with latestEnd_ge [OF a(1)] show "0 \<le> latestEnd tasks - earliestStart tasks" by (simp add: a(2))
  show "latestEnd tasks - earliestStart tasks \<le> 2 ^ 53"
    using wa wb by (simp add: a(2) b(2) well_formed_def)
qed

lemma duration_exact:
  assumes ne: "tasks \<noteq> []" and wf: "\<forall>t\<in>set tasks. well_formed t"
  shows "totalDuration (new_TimelineRenderer tasks W) = tnum (latestEnd tasks - earliestStart tasks)"
proof -
  note r = duration_range [OF ne wf]
  have "\<bar>latestEnd tasks - earliestStart tasks\<bar> \<le> 2 ^ 53" using r(2,3) by simp
  then show ?thesis by (simp only: renderer_fields(3) [OF ne] binary64_int)
qed

lemma positive_duration:
  assumes ne: "tasks \<noteq> []" and wf: "\<forall>t\<in>set tasks. well_formed t"
    and pos: "js_lt (Fin 0) (totalDuration (new_TimelineRenderer tasks W))"
  shows "1 \<le> latestEnd tasks - earliestStart tasks"
  using pos by (simp add: duration_exact [OF ne wf])

text \<open>The scale of a chart with a positive total duration \<open>D\<close>, and the column of a time
  between 0 and \<open>D\<close>: an integer between 0 and 202.\<close>

lemma msToChars_positive:
  assumes ne: "tasks \<noteq> []" and wf: "\<forall>t\<in>set tasks. well_formed t"
    and d: "1 \<le> latestEnd tasks - earliestStart tasks"
  shows "msToChars (new_TimelineRenderer tasks TIMELINE_WIDTH) =
           Fin (round64 (100 / of_int (latestEnd tasks - earliestStart tasks)))"
proof -
  let ?D = "latestEnd tasks - earliestStart tasks"
  note r = duration_range [OF ne wf]
  have abs: "\<bar>?D\<bar> \<le> 2 ^ 53" using r(2,3) by simp
  have nz: "(of_int ?D :: rat) \<noteq> 0" using d by simp
  have "\<bar>100 / (of_int ?D :: rat)\<bar> \<le> 100" using d by (simp add: field_simps)
  then have "\<bar>100 / (of_int ?D :: rat)\<bar> \<le> 2 ^ 1022" by simp
  from binary64_Fin [OF this]
  have "binary64 (Fin (100 / of_int ?D)) = Fin (round64 (100 / of_int ?D))" .
  moreover have "msToChars (new_TimelineRenderer tasks TIMELINE_WIDTH) = f64_div (Fin 100) (tnum ?D)"
    by (simp only: renderer_fields(4) [OF ne] binary64_int [OF abs] TIMELINE_WIDTH_def)
  moreover have "f64_div (Fin 100) (tnum ?D) = binary64 (Fin (100 / of_int ?D))"
    using nz by (simp only: f64_div_def js_div.simps if_False)
  ultimately show ?thesis by (simp only:)
qed

lemma timeToChars_positive:
  assumes ne: "tasks \<noteq> []" and wf: "\<forall>t\<in>set tasks. well_formed t"
    and d: "1 \<le> latestEnd tasks - earliestStart tasks"
    and s: "0 \<le> s" "s \<le> 2 * of_int (latestEnd tasks - earliestStart tasks)"
  shows "timeToChars (new_TimelineRenderer tasks TIMELINE_WIDTH) (Fin s) =
           tnum \<lfloor>round64 (s * round64 (100 / of_int (latestEnd tasks - earliestStart tasks)))\<rfloor>"
    and "0 \<le> \<lfloor>round64 (s * round64 (100 / of_int (latestEnd tasks - earliestStart tasks)))\<rfloor>"
    and "\<lfloor>round64 (s * round64 (100 / of_int (latestEnd tasks - earliestStart tasks)))\<rfloor> \<le> 404"
proof -
  let ?D = "of_int (latestEnd tasks - earliestStart tasks) :: rat"
  let ?c = "round64 (100 / ?D)"
  note r = duration_range [OF ne wf]
  have D: "1 \<le> ?D" "?D \<le> 2 ^ 53"
  proof -
    show "1 \<le> ?D" using d by simp
    have "?D \<le> of_int (2 ^ 53)" using r(3) by (simp only: of_int_le_iff)
    then show "?D \<le> 2 ^ 53" by simp
  qed
  note b = scaled_bounds [OF D s]
  from b(1,2) have "\<bar>s * ?c\<bar> \<le> 2 ^ 1022" by simp
  from binary64_Fin [OF this]
  show "timeToChars (new_TimelineRenderer tasks TIMELINE_WIDTH) (Fin s) = tnum \<lfloor>round64 (s * ?c)\<rfloor>"
    by (simp add: timeToChars_def msToChars_positive [OF ne wf d] f64_mul_def)
  show "0 \<le> \<lfloor>round64 (s * ?c)\<rfloor>" using b(3) by simp
  show "\<lfloor>round64 (s * ?c)\<rfloor> \<le> 404" using b(4) by (simp add: floor_le_iff)
qed

text \<open>
  C7: for every task of a non-empty list of well-formed tasks with positive total duration,
  the bar starts at a column \<open>barStart \<ge> 0\<close> and is at least \<open>MIN_BAR_WIDTH = 3\<close> columns
  wide (\<open>barEnd - barStart \<ge> 3\<close>), however short the task is. The bounds are those that
  the rounded arithmetic of the program gives.
\<close>

theorem bar_bounds:
  assumes ne: "tasks \<noteq> []"
    and wf: "\<forall>t\<in>set tasks. well_formed t"
    and pos: "js_lt (Fin 0) (totalDuration (new_TimelineRenderer tasks TIMELINE_WIDTH))"
    and mem: "task \<in> set tasks"
  shows "\<exists>barStart barEnd :: int.
           getTaskBarBounds (new_TimelineRenderer tasks TIMELINE_WIDTH) task = (tnum barStart, tnum barEnd) \<and>
           0 \<le> barStart \<and> barStart + 3 \<le> barEnd"
proof -
  let ?r = "new_TimelineRenderer tasks TIMELINE_WIDTH"
  let ?D = "latestEnd tasks - earliestStart tasks"
  let ?c = "round64 (100 / of_int ?D)"
  note d = positive_duration [OF ne wf pos]
  note r = duration_range [OF ne wf]
  from wf mem have w: "well_formed task" by simp
  let ?s = "exec_startTime task - earliestStart tasks"
  let ?u = "exec_endTime task - exec_startTime task"
  have s: "0 \<le> ?s" "?s \<le> ?D"
    using earliestStart_le [OF mem] latestEnd_ge [OF mem] w by (simp_all add: well_formed_def)
  have u: "0 \<le> ?u" "?u \<le> ?D"
    using earliestStart_le [OF mem] latestEnd_ge [OF mem] w by (simp_all add: well_formed_def)
  have s53: "\<bar>?s\<bar> \<le> 2 ^ 53" using s r(3) by simp
  have u53: "\<bar>?u\<bar> \<le> 2 ^ 53" using u r(3) by simp
  have taskStart: "f64_sub (tnum (exec_startTime task)) (startTime ?r) = tnum ?s"
    by (simp only: renderer_fields(1) [OF ne] f64_sub_int [OF s53])
  have taskDuration: "f64_sub (tnum (exec_endTime task)) (tnum (exec_startTime task)) = tnum ?u"
    by (rule f64_sub_int [OF u53])
  define bs where "bs = \<lfloor>round64 (of_int ?s * ?c)\<rfloor>"
  define bw where "bw = \<lfloor>round64 (of_int ?u * ?c)\<rfloor>"
  have int2: "(0::rat) \<le> of_int a \<and> (of_int a :: rat) \<le> 2 * of_int ?D" if "0 \<le> a" "a \<le> ?D" for a
  proof -
    from that have "(0::rat) \<le> of_int a" "(of_int a :: rat) \<le> of_int ?D"
      by (simp_all only: of_int_0_le_iff of_int_le_iff)
    then show ?thesis by simp
  qed
  have srat: "(0::rat) \<le> of_int ?s" "(of_int ?s :: rat) \<le> 2 * of_int ?D"
    using int2 [OF s] by simp_all
  have urat: "(0::rat) \<le> of_int ?u" "(of_int ?u :: rat) \<le> 2 * of_int ?D"
    using int2 [OF u] by simp_all
  note ts = timeToChars_positive [OF ne wf d srat, folded bs_def]
  note tu = timeToChars_positive [OF ne wf d urat, folded bw_def]
  have sum: "\<bar>bs + max 3 bw\<bar> \<le> 2 ^ 53" using ts(2,3) tu(2,3) by simp
  have three: "MIN_BAR_WIDTH = tnum 3" by (simp add: MIN_BAR_WIDTH_def)
  have "getTaskBarBounds ?r task = (tnum bs, tnum (bs + max 3 bw))"
    by (simp only: getTaskBarBounds_def Let_def taskStart taskDuration ts(1) tu(1) three
          js_max2_int f64_add_int [OF sum])
  with ts(2) show ?thesis by (intro exI [of _ bs] exI [of _ "bs + max 3 bw"]) simp
qed

lemmas sample_simps = sample_build_def sample_test_def sample_instant_def sample_long_def

lemmas renderer_eval = new_TimelineRenderer_def Math_min_def Math_max_def js_min2_def js_max2_def
  js_sub_def timeToChars_def TIMELINE_WIDTH_def MAX_LABEL_WIDTH_def MIN_BAR_WIDTH_def Let_def
  f64_add_def f64_sub_def f64_mul_def f64_div_def

theorem bar_bounds_witness:
  "[sample_build, sample_test] \<noteq> [] \<and>
   well_formed sample_build \<and> well_formed sample_test \<and>
   js_lt (Fin 0) (totalDuration (new_TimelineRenderer [sample_build, sample_test] TIMELINE_WIDTH)) \<and>
   sample_test \<in> set [sample_build, sample_test] \<and>
   getTaskBarBounds (new_TimelineRenderer [sample_build, sample_test] TIMELINE_WIDTH) sample_test =
     (tnum 99, tnum 102) \<and>
   (\<exists>barStart barEnd :: int.
      getTaskBarBounds (new_TimelineRenderer [sample_build, sample_test] TIMELINE_WIDTH) sample_test =
        (tnum barStart, tnum barEnd) \<and>
      0 \<le> barStart \<and> barStart + 3 \<le> barEnd)"
proof -
  have h1: "[sample_build, sample_test] \<noteq> []" by simp
  have wf: "well_formed sample_build" "well_formed sample_test"
    by (simp_all add: well_formed_def sample_simps)
  then have h2: "\<forall>t\<in>set [sample_build, sample_test]. well_formed t" by simp
  have h3: "js_lt (Fin 0) (totalDuration (new_TimelineRenderer [sample_build, sample_test] TIMELINE_WIDTH))"
    by (simp add: renderer_eval sample_simps)
  have h4: "sample_test \<in> set [sample_build, sample_test]" by simp
  have v: "getTaskBarBounds (new_TimelineRenderer [sample_build, sample_test] TIMELINE_WIDTH) sample_test =
     (tnum 99, tnum 102)"
    by (simp add: getTaskBarBounds_def renderer_eval sample_simps)
  show ?thesis using h1 wf h3 h4 v bar_bounds [OF h1 h2 h3 h4] by blast
qed

section \<open>The loop over the columns of a row\<close>

lemma js_le_num_Fin: "js_le (num i) (Fin q) = (of_nat i \<le> q)"
  by (auto simp: js_le_def js_eq_def)

lemma js_le_not_finite [simp]: "\<not> js_le x NaN" "\<not> js_le (Fin a) NInf"
  by (cases x; simp add: js_le_def js_eq_def)+

lemma row_loop_exit:
  "\<not> js_le (num i) w \<Longrightarrow>
   renderTaskRow_loop mp bs be w c d dl i line pend = Some (line, pend)"
  by (subst renderTaskRow_loop.simps) simp

lemma row_loop_place:
  "js_le (num i) w \<Longrightarrow> placesLabel mp i pend \<Longrightarrow>
   renderTaskRow_loop mp bs be w c d dl i line pend =
   renderTaskRow_loop mp bs be w c d dl (Suc (i + (length (the pend) - 1)))
     (line @ [Styled d (map Ch (the pend))]) None"
  by (subst renderTaskRow_loop.simps) simp

lemma row_loop_cell:
  "js_le (num i) w \<Longrightarrow> \<not> placesLabel mp i pend \<Longrightarrow>
   renderTaskRow_loop mp bs be w c d dl i line pend =
   renderTaskRow_loop mp bs be w c d dl (Suc i)
     (line @ [timelineChar mp bs be c d i])
     (if js_eq (num i) be \<and> pend = None then Some dl else pend)"
  by (subst renderTaskRow_loop.simps) simp

text \<open>The rule of the loop over the columns: an invariant that holds at the start and is
  kept by both kinds of step holds when the loop ends, and the loop ends whenever
  \<open>width\<close> is not \<^verbatim>\<open>Infinity\<close>.\<close>

lemma row_loop_rule:
  assumes fin: "w \<noteq> PInf"
    and init: "P i line pend"
    and place: "\<And>i line pend. P i line pend \<Longrightarrow> js_le (num i) w \<Longrightarrow> placesLabel mp i pend \<Longrightarrow>
        P (Suc (i + (length (the pend) - 1))) (line @ [Styled d (map Ch (the pend))]) None"
    and cell: "\<And>i line pend. P i line pend \<Longrightarrow> js_le (num i) w \<Longrightarrow> \<not> placesLabel mp i pend \<Longrightarrow>
        P (Suc i) (line @ [timelineChar mp bs be c d i])
          (if js_eq (num i) be \<and> pend = None then Some dl else pend)"
  shows "\<exists>i' line' pend'.
           renderTaskRow_loop mp bs be w c d dl i line pend = Some (line', pend') \<and>
           P i' line' pend' \<and> \<not> js_le (num i') w"
proof (cases "\<exists>q. w = Fin q")
  case False
  then have "\<not> js_le (num i) w" using fin by (cases w) simp_all
  then show ?thesis using init row_loop_exit by blast
next
  case True
  then obtain q where w: "w = Fin q" by blast
  show ?thesis using init
  proof (induction "nat (\<lfloor>q\<rfloor> + 1) - i" arbitrary: i line pend rule: less_induct)
    case less
    show ?case
    proof (cases "js_le (num i) w")
      case False
      then show ?thesis using less.prems row_loop_exit by blast
    next
      case True
      then have iq: "of_nat i \<le> q" by (simp add: w js_le_num_Fin)
      then have "int i \<le> \<lfloor>q\<rfloor>" by (simp add: le_floor_iff)
      then have lt: "i < nat (\<lfloor>q\<rfloor> + 1)" by linarith
      show ?thesis
      proof (cases "placesLabel mp i pend")
        case pl: True
        let ?i = "Suc (i + (length (the pend) - 1))"
        have "nat (\<lfloor>q\<rfloor> + 1) - ?i < nat (\<lfloor>q\<rfloor> + 1) - i" using lt by linarith
        from less.hyps [OF this place [OF less.prems True pl]]
        show ?thesis by (simp add: row_loop_place [OF True pl])
      next
        case pl: False
        have "nat (\<lfloor>q\<rfloor> + 1) - Suc i < nat (\<lfloor>q\<rfloor> + 1) - i" using lt by linarith
        from less.hyps [OF this cell [OF less.prems True pl]]
        show ?thesis by (simp add: row_loop_cell [OF True pl])
      qed
    qed
  qed
qed

lemma glyphs_timelineChar:
  "glyphs (timelineChar mp bs be c d i) = [if array_includes mp (num i) then VBar else Nbsp]"
  by (simp add: timelineChar_def Let_def)

lemma timelineChar_not_label: "l \<noteq> [] \<Longrightarrow> timelineChar mp bs be c d i \<noteq> Styled d' (map Ch l)"
  by (cases l) (auto simp: timelineChar_def Let_def)

lemma visible_append [simp]: "visible (xs @ ys) = visible xs @ visible ys"
  by (simp add: visible_def)

lemma visible_Cons [simp]: "visible (p # ps) = glyphs p @ visible ps"
  by (simp add: visible_def)

lemma visible_Nil [simp]: "visible [] = []"
  by (simp add: visible_def)

lemma snoc_eq_mid:
  assumes "xs @ [x] = pre @ y # post"
  shows "(post = [] \<and> pre = xs \<and> x = y) \<or> (\<exists>post'. post = post' @ [x] \<and> xs = pre @ y # post')"
proof (cases post rule: rev_cases)
  case Nil
  then show ?thesis using assms by simp
next
  case (snoc post' z)
  then have "xs @ [x] = (pre @ y # post') @ [z]" using assms by simp
  then have "xs = pre @ y # post'" "x = z" by (simp_all only: append1_eq_conv)
  then show ?thesis using snoc by simp
qed

lemma no_conflict_free:
  assumes "\<not> hasConflict mp i l" and "i < c" and "c < i + length l"
  shows "\<not> array_includes mp (num c)"
proof
  assume "array_includes mp (num c)"
  then have "num c \<in> set mp" by (simp add: array_includes_def)
  moreover have "js_gt (num c) (num i) \<and> js_lt (num c) (num (i + length l))"
    using assms(2,3) by (simp add: js_gt_def)
  ultimately have "hasConflict mp i l"
    unfolding hasConflict_def Let_def list_ex_iff by blast
  then show False using assms(1) by simp
qed

lemma cells_ok_Nil: "cells_ok mp d 0 []"
  by (simp add: cells_ok_def)

lemma cells_ok_cell:
  assumes "cells_ok mp d i cells"
  shows "cells_ok mp d (Suc i) (cells @ [timelineChar mp bs be c d i])"
proof -
  let ?x = "timelineChar mp bs be c d i"
  have len: "length (visible cells) = i" using assms by (simp add: cells_ok_def)
  have a: "length (visible (cells @ [?x])) = Suc i"
    by (simp add: len glyphs_timelineChar)
  have b: "(visible (cells @ [?x]) ! k = VBar) = array_includes mp (num k)" if "k < Suc i" for k
  proof (cases "k < i")
    case True
    then show ?thesis using assms len by (simp add: cells_ok_def nth_append)
  next
    case False
    then have "k = i" using that by simp
    then show ?thesis by (simp add: len nth_append glyphs_timelineChar)
  qed
  have c: "\<not> array_includes mp (num (length (visible pre) + k))"
    if eq: "cells @ [?x] = pre @ Styled d (map Ch l) # post" and l: "l \<noteq> []" and k: "k < length l"
    for pre l post k
  proof -
    from snoc_eq_mid [OF eq] timelineChar_not_label [OF l]
    obtain post' where "cells = pre @ Styled d (map Ch l) # post'" by blast
    then show ?thesis using assms l k unfolding cells_ok_def by blast
  qed
  show ?thesis unfolding cells_ok_def using a b c by blast
qed

lemma cells_ok_label:
  assumes ok: "cells_ok mp d i cells" and l: "l \<noteq> []"
    and nm: "\<not> array_includes mp (num i)" and nc: "\<not> hasConflict mp i l"
  shows "cells_ok mp d (i + length l) (cells @ [Styled d (map Ch l)])"
proof -
  let ?x = "Styled d (map Ch l)"
  have len: "length (visible cells) = i" using ok by (simp add: cells_ok_def)
  have free: "\<not> array_includes mp (num (i + k))" if "k < length l" for k
    using nm no_conflict_free [OF nc, of "i + k"] that by (cases "k = 0") simp_all
  have a: "length (visible (cells @ [?x])) = i + length l"
    by (simp add: len)
  have b: "(visible (cells @ [?x]) ! k = VBar) = array_includes mp (num k)" if "k < i + length l" for k
  proof (cases "k < i")
    case True
    then show ?thesis using ok len by (simp add: cells_ok_def nth_append)
  next
    case False
    then have "k - i < length l" using that by simp
    with free [of "k - i"] False show ?thesis by (simp add: len nth_append)
  qed
  have c: "\<not> array_includes mp (num (length (visible pre) + k))"
    if eq: "cells @ [?x] = pre @ Styled d (map Ch l') # post" and l': "l' \<noteq> []" and k: "k < length l'"
    for pre l' post k
    using snoc_eq_mid [OF eq]
  proof
    assume "post = [] \<and> pre = cells \<and> ?x = Styled d (map Ch l')"
    then have "pre = cells" "map Ch l' = map Ch l" by simp_all
    then have "length (visible pre) = i" "length l' = length l"
      using len by (simp, metis length_map)
    then show ?thesis using free k by simp
  next
    assume "\<exists>post'. post = post' @ [?x] \<and> cells = pre @ Styled d (map Ch l') # post'"
    then show ?thesis using ok l' k unfolding cells_ok_def by blast
  qed
  show ?thesis unfolding cells_ok_def using a b c by blast
qed

lemma placesLabel_Some:
  "placesLabel mp i pend \<Longrightarrow>
   \<exists>l. pend = Some l \<and> l \<noteq> [] \<and> \<not> array_includes mp (num i) \<and> \<not> hasConflict mp i l"
  by (cases pend) (simp_all add: placesLabel_def)

lemma map_Ch_eq: "map Ch l = map Ch l' \<Longrightarrow> l = l'"
  by (simp add: inj_on_def)

lemma js_lt_later: "js_lt x (num i) \<Longrightarrow> i \<le> j \<Longrightarrow> js_lt x (num j)"
proof (cases x)
  case (Fin q)
  assume "js_lt x (num i)" "i \<le> j"
  then have "q < of_nat i" "(of_nat i :: rat) \<le> of_nat j" by (simp_all add: Fin)
  then show ?thesis by (simp add: Fin)
qed simp_all

lemma labels_behind_Nil: "labels_behind be dl d []"
  by (simp add: labels_behind_def)

lemma labels_behind_cell:
  assumes "labels_behind be dl d cells"
  shows "labels_behind be dl d (cells @ [timelineChar mp bs be' c d i])"
  unfolding labels_behind_def
proof (intro allI impI, elim conjE)
  fix pre l post
  assume eq: "cells @ [timelineChar mp bs be' c d i] = pre @ Styled d (map Ch l) # post" and l: "l \<noteq> []"
  from snoc_eq_mid [OF eq] timelineChar_not_label [OF l]
  obtain post' where "cells = pre @ Styled d (map Ch l) # post'" by blast
  then show "l = dl \<and> js_lt be (num (length (visible pre)))"
    using assms l unfolding labels_behind_def by blast
qed

lemma labels_behind_label:
  assumes ok: "labels_behind be dl d cells" and at: "js_lt be (num (length (visible cells)))"
  shows "labels_behind be dl d (cells @ [Styled d (map Ch dl)])"
  unfolding labels_behind_def
proof (intro allI impI, elim conjE)
  fix pre l post
  assume eq: "cells @ [Styled d (map Ch dl)] = pre @ Styled d (map Ch l) # post" and l: "l \<noteq> []"
  from snoc_eq_mid [OF eq] show "l = dl \<and> js_lt be (num (length (visible pre)))"
  proof
    assume "post = [] \<and> pre = cells \<and> Styled d (map Ch dl) = Styled d (map Ch l)"
    then have "pre = cells" "map Ch l = map Ch dl" by simp_all
    with at map_Ch_eq [of l dl] show ?thesis by simp
  next
    assume "\<exists>post'. post = post' @ [Styled d (map Ch dl)] \<and> cells = pre @ Styled d (map Ch l) # post'"
    then show ?thesis using ok l unfolding labels_behind_def by blast
  qed
qed

text \<open>The loop over the columns, from the first column: it ends; the cells it writes are
  as \<open>cells_ok\<close> and \<open>labels_behind\<close> say; and a label that is still pending at the end
  was armed at a column before.\<close>

lemma row_loop_cells:
  assumes fin: "w \<noteq> PInf"
  shows "\<exists>i' cells pend'.
           renderTaskRow_loop mp bs be w c d dl 0 line0 None = Some (line0 @ cells, pend') \<and>
           cells_ok mp d i' cells \<and> labels_behind be dl d cells \<and> \<not> js_le (num i') w \<and>
           (pend' = None \<or> pend' = Some dl \<and> js_lt be (num i'))"
proof -
  let ?P = "\<lambda>i line pend.
              (\<exists>cells. line = line0 @ cells \<and> cells_ok mp d i cells \<and> labels_behind be dl d cells) \<and>
              (pend = None \<or> pend = Some dl \<and> js_lt be (num i))"
  have init: "?P 0 line0 None" by (simp add: cells_ok_Nil labels_behind_Nil)
  have place: "?P (Suc (i + (length (the pend) - 1))) (line @ [Styled d (map Ch (the pend))]) None"
    if P: "?P i line pend" and "js_le (num i) w" and pl: "placesLabel mp i pend" for i line pend
  proof -
    from placesLabel_Some [OF pl] obtain l where
      l: "pend = Some l" "l \<noteq> []" "\<not> array_includes mp (num i)" "\<not> hasConflict mp i l" by blast
    from P l(1) have dl: "l = dl" and at: "js_lt be (num i)" by simp_all
    from P obtain cells where cs: "line = line0 @ cells" "cells_ok mp d i cells"
      "labels_behind be dl d cells" by blast
    have len: "length (visible cells) = i" using cs(2) by (simp add: cells_ok_def)
    have eq: "Suc (i + (length (the pend) - 1)) = i + length l"
      using l(1,2) by (cases l) simp_all
    have "line @ [Styled d (map Ch (the pend))] = line0 @ (cells @ [Styled d (map Ch l)])"
      using cs(1) l(1) by simp
    moreover have "labels_behind be dl d (cells @ [Styled d (map Ch l)])"
      unfolding dl by (rule labels_behind_label [OF cs(3)]) (simp add: len at)
    ultimately show ?thesis unfolding eq using cells_ok_label [OF cs(2) l(2,3,4)] by blast
  qed
  have cell: "?P (Suc i) (line @ [timelineChar mp bs be c d i])
                (if js_eq (num i) be \<and> pend = None then Some dl else pend)"
    if P: "?P i line pend" and "js_le (num i) w" and "\<not> placesLabel mp i pend" for i line pend
  proof -
    from P obtain cells where cs: "line = line0 @ cells" "cells_ok mp d i cells"
      "labels_behind be dl d cells" by blast
    have a: "\<exists>cells'. line @ [timelineChar mp bs be c d i] = line0 @ cells' \<and>
               cells_ok mp d (Suc i) cells' \<and> labels_behind be dl d cells'"
      using cells_ok_cell [OF cs(2)] labels_behind_cell [OF cs(3)] cs(1) by auto
    have b: "js_lt be (num (Suc i))" if "js_eq (num i) be"
    proof -
      from that have "be = num i" by (simp add: js_eq_def)
      then show ?thesis by simp
    qed
    have c: "js_lt be (num (Suc i))" if "js_lt be (num i)"
      using that by (rule js_lt_later) simp
    from P have "pend = None \<or> pend = Some dl \<and> js_lt be (num i)" by simp
    then have "(if js_eq (num i) be \<and> pend = None then Some dl else pend) = None \<or>
               (if js_eq (num i) be \<and> pend = None then Some dl else pend) = Some dl \<and>
               js_lt be (num (Suc i))"
      using b c by auto
    with a show ?thesis by blast
  qed
  from row_loop_rule [of w ?P 0 line0 None mp d bs be c dl, OF fin init place cell]
  show ?thesis by blast
qed

section \<open>The grid of a rendered chart\<close>

lemma js_le_Fin [simp]: "js_le (Fin a) (Fin b) = (a \<le> b)" "js_le (Fin a) PInf"
  by (auto simp: js_le_def js_eq_def)

lemma replicate_9: "replicate 9 x = [x, x, x, x, x, x, x, x, x]"
  by (simp add: numeral_eq_Suc)

lemma upt_markers: "[0 ..< Suc NUM_TIME_MARKERS] = [0, 1, 2, 3, 4, 5, 6, 7, 8]"
  by (simp add: NUM_TIME_MARKERS_def upt_rec)

lemma js_mul_NaN [simp]: "js_mul x NaN = NaN"
  by (cases x) simp_all

subsection \<open>The width of the timeline\<close>

text \<open>The width is \<^verbatim>\<open>NaN\<close> when the total duration is zero.\<close>

lemma width_zero:
  assumes "tasks \<noteq> []" and "latestEnd tasks = earliestStart tasks"
  shows "timeToChars (new_TimelineRenderer tasks TIMELINE_WIDTH)
           (totalDuration (new_TimelineRenderer tasks TIMELINE_WIDTH)) = NaN"
  using assms
  by (simp add: timeToChars_def renderer_fields TIMELINE_WIDTH_def f64_div_def f64_mul_def)

text \<open>Whatever the timestamps are, the width is never \<^verbatim>\<open>Infinity\<close>: when the total
  duration \<open>d\<close> is finite and not zero, the scale is at most \<open>200 / d\<close> in absolute value,
  and the product with \<open>d\<close> at most 200.\<close>

lemma rounded_int_away:
  assumes n: "n \<noteq> 0"
  shows "1 / 2 \<le> \<bar>round64 (of_int n)\<bar>"
proof -
  have one: "(1::rat) \<le> \<bar>of_int n\<bar>"
  proof -
    have "1 \<le> \<bar>n\<bar>" using n by simp
    then have "(of_int 1 :: rat) \<le> of_int \<bar>n\<bar>" by (simp only: of_int_le_iff)
    then show ?thesis by simp
  qed
  then have "1 / 2 ^ 60 \<le> \<bar>of_int n :: rat\<bar>" by simp
  then have "2 powi (- 1022) \<le> \<bar>of_int n :: rat\<bar>" by (rule normal_ge_abs)
  then have "\<bar>round64 (of_int n) - of_int n\<bar> \<le> \<bar>of_int n :: rat\<bar> / 2 ^ 53"
    by (rule round64_err)
  also have "\<dots> \<le> \<bar>of_int n :: rat\<bar> / 2" by (intro divide_left_mono) simp_all
  finally show ?thesis using one by linarith
qed

lemma scale_back_finite:
  "js_floor (f64_mul (binary64 (tnum n)) (f64_div (Fin 100) (binary64 (tnum n)))) \<noteq> PInf"
proof (cases "binary64 (tnum n)")
  case (Fin d)
  show ?thesis
  proof (cases "d = 0")
    case True
    then show ?thesis by (simp add: Fin f64_div_def f64_mul_def)
  next
    case False
    have d: "d = round64 (of_int n)"
      using Fin by (simp add: binary64_def Let_def split: if_splits)
    have "n \<noteq> 0" using False d by (auto simp: round64_zero)
    from rounded_int_away [OF this] have half: "1 / 2 \<le> \<bar>d\<bar>" by (simp only: d)
    have q: "\<bar>100 / d\<bar> \<le> 200" using half by (simp add: field_simps)
    then have "\<bar>100 / d\<bar> \<le> 2 ^ 1022" by simp
    from binary64_Fin [OF this]
    have c: "f64_div (Fin 100) (Fin d) = Fin (round64 (100 / d))"
      using False by (simp add: f64_div_def)
    have "\<bar>d * round64 (100 / d)\<bar> = \<bar>d\<bar> * \<bar>round64 (100 / d)\<bar>" by (rule abs_mult)
    also have "\<dots> \<le> \<bar>d\<bar> * (2 * \<bar>100 / d\<bar>)"
      by (intro mult_left_mono round64_le_double) simp
    also have "\<dots> = 200" using False by simp
    finally have "\<bar>d * round64 (100 / d)\<bar> \<le> 2 ^ 1022" by simp
    from binary64_Fin [OF this] show ?thesis
      by (simp add: Fin c f64_mul_def)
  qed
qed (simp_all add: f64_div_def f64_mul_def)

lemma width_not_PInf:
  "tasks \<noteq> [] \<Longrightarrow> timeToChars (new_TimelineRenderer tasks TIMELINE_WIDTH)
           (totalDuration (new_TimelineRenderer tasks TIMELINE_WIDTH)) \<noteq> PInf"
proof -
  assume ne: "tasks \<noteq> []"
  note f = renderer_fields [OF ne, of "Fin 100"]
  show ?thesis
    unfolding timeToChars_def TIMELINE_WIDTH_def f(3,4) by (rule scale_back_finite)
qed

text \<open>For well-formed tasks with a positive total duration the width is 99 or 100: the
  product of the duration with the rounded scale is within a quarter of 100.\<close>

lemma width_positive:
  assumes ne: "tasks \<noteq> []" and wf: "\<forall>t\<in>set tasks. well_formed t"
    and d: "1 \<le> latestEnd tasks - earliestStart tasks"
  shows "\<exists>w. timeToChars (new_TimelineRenderer tasks TIMELINE_WIDTH)
                (totalDuration (new_TimelineRenderer tasks TIMELINE_WIDTH)) = num w \<and>
              99 \<le> w \<and> w \<le> 100"
proof -
  let ?D = "of_int (latestEnd tasks - earliestStart tasks) :: rat"
  let ?y = "round64 (?D * round64 (100 / ?D))"
  note r = duration_range [OF ne wf]
  have D: "1 \<le> ?D" "?D \<le> 2 ^ 53"
  proof -
    show "1 \<le> ?D" using d by simp
    have "?D \<le> of_int (2 ^ 53)" using r(3) by (simp only: of_int_le_iff)
    then show "?D \<le> 2 ^ 53" by simp
  qed
  have s: "0 \<le> ?D" "?D \<le> 2 * ?D" using D by simp_all
  note t = timeToChars_positive [OF ne wf d s]
  have "\<bar>latestEnd tasks - earliestStart tasks\<bar> \<le> 2 ^ 53" using r(2,3) by simp
  from round64_of_int [OF this] have one: "round64 (1 * ?D) = ?D" by simp
  have t1: "(1::rat) / 8 \<le> 1" "(1::rat) \<le> 1" by simp_all
  from scaled_err [OF D t1] have "\<bar>?y - 100\<bar> \<le> 1 / 4" by (simp only: one mult_1_right)
  then have "99 \<le> ?y" "?y < 101" by linarith+
  then have "99 \<le> \<lfloor>?y\<rfloor>" "\<lfloor>?y\<rfloor> \<le> 100" by (simp_all add: le_floor_iff floor_le_iff)
  moreover define k where "k = \<lfloor>?y\<rfloor>"
  ultimately have k: "99 \<le> k" "k \<le> 100" by simp_all
  have "timeToChars (new_TimelineRenderer tasks TIMELINE_WIDTH)
          (totalDuration (new_TimelineRenderer tasks TIMELINE_WIDTH)) = tnum k"
    by (simp only: duration_exact [OF ne wf] t(1) k_def)
  also have "tnum k = num (nat k)" using k(1) by simp
  finally have "timeToChars (new_TimelineRenderer tasks TIMELINE_WIDTH)
          (totalDuration (new_TimelineRenderer tasks TIMELINE_WIDTH)) = num (nat k)" .
  moreover have "99 \<le> nat k" "nat k \<le> 100" using k by simp_all
  ultimately show ?thesis by blast
qed

subsection \<open>The marker positions\<close>

text \<open>For a width \<open>w\<close>, the markers are at the columns \<open>\<lfloor>i w / 8\<rfloor>\<close> for \<open>i\<close> from 0 to 8; no
  product of an eighth with a width is rounded. The last of them is \<open>w\<close>, so the array
  already holds the final grid line.\<close>

lemma marker_at:
  assumes "i \<le> 8" and "w \<le> 2 ^ 50"
  shows "js_floor (f64_mul (f64_div (num i) (num NUM_TIME_MARKERS)) (num w)) = num (i * w div 8)"
proof -
  have i: "\<bar>int i\<bar> \<le> 2 ^ 53" using assms(1) by simp
  have "i * w \<le> 8 * 2 ^ 50" using assms by (intro mult_mono) simp_all
  then have "int (i * w) \<le> int (8 * 2 ^ 50)" by (simp only: of_nat_le_iff)
  then have iw: "\<bar>int (i * w)\<bar> \<le> 2 ^ 53" by simp
  have "f64_div (num i) (num NUM_TIME_MARKERS) = binary64 (Fin (of_int (int i) / 8))"
    by (simp add: f64_div_def NUM_TIME_MARKERS_def)
  also have "\<dots> = Fin (of_int (int i) / 8)" by (rule binary64_eighths [OF i])
  finally have e: "f64_div (num i) (num NUM_TIME_MARKERS) = Fin (of_int (int i) / 8)" .
  have "f64_mul (Fin (of_int (int i) / 8)) (num w) = binary64 (Fin (of_int (int (i * w)) / 8))"
    by (simp add: f64_mul_def)
  also have "\<dots> = Fin (of_int (int (i * w)) / 8)" by (rule binary64_eighths [OF iw])
  finally have "js_floor (f64_mul (f64_div (num i) (num NUM_TIME_MARKERS)) (num w)) =
                Fin (of_int \<lfloor>(of_nat (i * w) :: rat) / of_nat 8\<rfloor>)"
    by (simp add: e)
  then show ?thesis by (simp only: floor_nat_div of_int_of_nat_eq)
qed

lemma markers_num:
  assumes w: "timeToChars r (totalDuration r) = num w" and le: "w \<le> 2 ^ 50"
  shows "getMarkerPositions r = map (\<lambda>i. num (i * w div 8)) [0, 1, 2, 3, 4, 5, 6, 7, 8]"
proof -
  have pos: "map (\<lambda>i. js_floor (f64_mul (f64_div (num i) (num NUM_TIME_MARKERS)) (num w)))
               [0, 1, 2, 3, 4, 5, 6, 7, 8]
             = map (\<lambda>i. num (i * w div 8)) [0, 1, 2, 3, 4, 5, 6, 7, 8]"
    by (rule map_cong [OF refl]) (auto intro!: marker_at [OF _ le])
  have "num w \<in> set (map (\<lambda>i. num (i * w div 8)) [0, 1, 2, 3, 4, 5, 6, 7, 8])" by simp
  then show ?thesis
    unfolding getMarkerPositions_def w upt_markers Let_def pos array_includes_def by simp
qed

lemma markers_NaN:
  assumes "timeToChars r (totalDuration r) = NaN"
  shows "getMarkerPositions r = replicate 9 NaN"
  unfolding getMarkerPositions_def assms upt_markers
  by (simp add: array_includes_def replicate_9 f64_mul_def)

lemma markers_upto:
  assumes w: "timeToChars r (totalDuration r) = num w" and le: "w \<le> 2 ^ 50"
  shows "array_includes (getMarkerPositions r) (num w)"
    and "array_includes (getMarkerPositions r) (num c) \<Longrightarrow> c \<le> w"
proof -
  show "array_includes (getMarkerPositions r) (num w)"
    by (simp add: markers_num [OF w le] array_includes_def)
  assume "array_includes (getMarkerPositions r) (num c)"
  then have "num c \<in> (\<lambda>i. num (i * w div 8)) ` set [0, 1, 2, 3, 4, 5, 6, 7, 8]"
    by (simp only: markers_num [OF w le] array_includes_def set_map)
  then obtain i where "i \<in> set [0, 1, 2, 3, 4, 5, 6, 7, 8 :: nat]" and ci: "num c = num (i * w div 8)"
    by (rule imageE)
  then have i: "i \<le> 8" "c = i * w div 8" by auto
  have "i * w div 8 \<le> 8 * w div 8" using i(1) by (intro div_le_mono mult_le_mono1)
  then show "c \<le> w" using i(2) by simp
qed

text \<open>The width of the chart of well-formed tasks: \<^verbatim>\<open>NaN\<close>, or a number of columns of
  which the markers are known.\<close>

lemma width_cases:
  assumes ne: "tasks \<noteq> []" and wf: "\<forall>t\<in>set tasks. well_formed t"
  shows "timeToChars (new_TimelineRenderer tasks TIMELINE_WIDTH)
           (totalDuration (new_TimelineRenderer tasks TIMELINE_WIDTH)) = NaN \<and>
         latestEnd tasks = earliestStart tasks \<or>
         (\<exists>w. timeToChars (new_TimelineRenderer tasks TIMELINE_WIDTH)
                 (totalDuration (new_TimelineRenderer tasks TIMELINE_WIDTH)) = num w \<and>
               99 \<le> w \<and> w \<le> 100 \<and> 1 \<le> latestEnd tasks - earliestStart tasks)"
proof (cases "latestEnd tasks = earliestStart tasks")
  case True
  then show ?thesis using width_zero [OF ne True] by simp
next
  case False
  with duration_range(2) [OF ne wf] have d: "1 \<le> latestEnd tasks - earliestStart tasks" by simp
  from width_positive [OF ne wf d] d show ?thesis by blast
qed

lemma markers_within:
  assumes ne: "tasks \<noteq> []" and wf: "\<forall>t\<in>set tasks. well_formed t"
    and c: "\<not> js_le (num c) (timeToChars (new_TimelineRenderer tasks TIMELINE_WIDTH)
                (totalDuration (new_TimelineRenderer tasks TIMELINE_WIDTH)))"
  shows "\<not> array_includes (getMarkerPositions (new_TimelineRenderer tasks TIMELINE_WIDTH)) (num c)"
  using width_cases [OF ne wf]
proof (elim disjE conjE exE)
  assume "timeToChars (new_TimelineRenderer tasks TIMELINE_WIDTH)
           (totalDuration (new_TimelineRenderer tasks TIMELINE_WIDTH)) = NaN"
  from markers_NaN [OF this] show ?thesis by (simp add: array_includes_def replicate_9)
next
  fix w
  assume w: "timeToChars (new_TimelineRenderer tasks TIMELINE_WIDTH)
           (totalDuration (new_TimelineRenderer tasks TIMELINE_WIDTH)) = num w" and "w \<le> 100"
  then have le: "w \<le> 2 ^ 50" by simp
  from c have "w < c" by (simp add: w)
  with markers_upto(2) [OF w le, of c] show ?thesis by auto
qed

subsection \<open>A rendered row\<close>

text \<open>A row, once the pending label is flushed: the gutter, the cells of the loop, and
  the duration label behind them when it was still pending.\<close>

lemma renderTaskRow_cells:
  assumes fin: "timeToChars r (totalDuration r) \<noteq> PInf"
  shows "\<exists>i' cells rest.
           renderTaskRow r d task mp =
             Some (Styled Gray (map Ch (padEnd (taskId task) (labelWidth r))) # cells @ rest) \<and>
           cells_ok mp d i' cells \<and> \<not> js_le (num i') (timeToChars r (totalDuration r)) \<and>
           labels_behind (snd (getTaskBarBounds r task))
             (formatDuration (f64_sub (tnum (exec_endTime task)) (tnum (exec_startTime task))))
             d (cells @ rest) \<and>
           (rest = [] \<or> (\<exists>l. l \<noteq> [] \<and> rest = [Styled d (map Ch l)]))"
proof -
  obtain bs be where bb: "getTaskBarBounds r task = (bs, be)" by (cases "getTaskBarBounds r task")
  let ?g = "Styled Gray (map Ch (padEnd (taskId task) (labelWidth r)))"
  let ?dl = "formatDuration (f64_sub (tnum (exec_endTime task)) (tnum (exec_startTime task)))"
  from row_loop_cells [OF fin, of mp bs be "getTaskColor r task" d ?dl "[?g]"]
  obtain i' cells pend' where
    run: "renderTaskRow_loop mp bs be (timeToChars r (totalDuration r)) (getTaskColor r task) d ?dl 0 [?g] None
          = Some ([?g] @ cells, pend')"
    and ok: "cells_ok mp d i' cells" "\<not> js_le (num i') (timeToChars r (totalDuration r))"
    and lb: "labels_behind be ?dl d cells"
    and pend: "pend' = None \<or> pend' = Some ?dl \<and> js_lt be (num i')" by blast
  have len: "length (visible cells) = i'" using ok(1) by (simp add: cells_ok_def)
  have row: "renderTaskRow r d task mp = Some (flushLabel d (?g # cells, pend'))"
    using run by (simp add: renderTaskRow_def Let_def bb)
  have "\<exists>rest. flushLabel d (?g # cells, pend') = ?g # cells @ rest \<and>
          labels_behind be ?dl d (cells @ rest) \<and>
          (rest = [] \<or> (\<exists>l. l \<noteq> [] \<and> rest = [Styled d (map Ch l)]))"
  proof (cases "pend' = Some ?dl \<and> ?dl \<noteq> []")
    case True
    with pend have at: "js_lt be (num (length (visible cells)))" by (simp add: len)
    have "flushLabel d (?g # cells, pend') = ?g # cells @ [Styled d (map Ch ?dl)]"
      using True by (simp add: flushLabel_def)
    moreover have "labels_behind be ?dl d (cells @ [Styled d (map Ch ?dl)])"
      by (rule labels_behind_label [OF lb at])
    ultimately show ?thesis using True by blast
  next
    case False
    with pend have "flushLabel d (?g # cells, pend') = ?g # cells @ []"
      by (auto simp: flushLabel_def)
    with lb show ?thesis by auto
  qed
  then show ?thesis using row ok by (auto simp: bb)
qed

text \<open>The duration labels of a row of a chart: each is the duration label of the task,
  starts behind the end of the bar, and covers no marker column.\<close>

lemma row_labels_avoid_markers:
  assumes ne: "tasks \<noteq> []" and wf: "\<forall>t\<in>set tasks. well_formed t"
  shows "\<exists>row. renderTaskRow (new_TimelineRenderer tasks TIMELINE_WIDTH) dimst task
                 (getMarkerPositions (new_TimelineRenderer tasks TIMELINE_WIDTH)) = Some row \<and>
           (\<forall>pre l post. row = pre @ Styled dimst (map Ch l) # post \<and> pre \<noteq> [] \<and> l \<noteq> [] \<longrightarrow>
              l = formatDuration (f64_sub (tnum (exec_endTime task)) (tnum (exec_startTime task))) \<and>
              js_lt (snd (getTaskBarBounds (new_TimelineRenderer tasks TIMELINE_WIDTH) task))
                (num (length (visible (tl pre)))) \<and>
              (\<forall>k<length l. \<not> array_includes (getMarkerPositions (new_TimelineRenderer tasks TIMELINE_WIDTH))
                                (num (length (visible (tl pre)) + k))))"
proof -
  let ?r = "new_TimelineRenderer tasks TIMELINE_WIDTH"
  let ?mp = "getMarkerPositions ?r"
  let ?g = "Styled Gray (map Ch (padEnd (taskId task) (labelWidth ?r)))"
  let ?be = "snd (getTaskBarBounds ?r task)"
  let ?dl = "formatDuration (f64_sub (tnum (exec_endTime task)) (tnum (exec_startTime task)))"
  from renderTaskRow_cells [OF width_not_PInf [OF ne], of dimst task ?mp]
  obtain i' cells rest where
    row: "renderTaskRow ?r dimst task ?mp = Some (?g # cells @ rest)"
    and ok: "cells_ok ?mp dimst i' cells"
    and out: "\<not> js_le (num i') (timeToChars ?r (totalDuration ?r))"
    and lb: "labels_behind ?be ?dl dimst (cells @ rest)"
    and rest: "rest = [] \<or> (\<exists>l. l \<noteq> [] \<and> rest = [Styled dimst (map Ch l)])" by blast
  have len: "length (visible cells) = i'" using ok by (simp add: cells_ok_def)
  have beyond: "\<not> array_includes ?mp (num (i' + k))" for k
  proof -
    have "\<not> js_le (num (i' + k)) (timeToChars ?r (totalDuration ?r))"
      using out by (cases "timeToChars ?r (totalDuration ?r)") simp_all
    then show ?thesis by (rule markers_within [OF ne wf])
  qed
  have free: "\<not> array_includes ?mp (num (length (visible (tl pre)) + k))"
    if tl: "cells @ rest = tl pre @ Styled dimst (map Ch l) # post"
      and l: "l \<noteq> []" and k: "k < length l" for pre l post k
    using rest
  proof
    assume "rest = []"
    then show ?thesis using tl ok l k unfolding cells_ok_def by auto
  next
    assume "\<exists>l'. l' \<noteq> [] \<and> rest = [Styled dimst (map Ch l')]"
    then obtain l' where l': "rest = [Styled dimst (map Ch l')]" by blast
    from snoc_eq_mid [OF tl [unfolded l']] show ?thesis
    proof
      assume "post = [] \<and> tl pre = cells \<and> Styled dimst (map Ch l') = Styled dimst (map Ch l)"
      then show ?thesis using len beyond by simp
    next
      assume "\<exists>post'. post = post' @ [Styled dimst (map Ch l')] \<and>
                cells = tl pre @ Styled dimst (map Ch l) # post'"
      then show ?thesis using ok l k unfolding cells_ok_def by blast
    qed
  qed
  have "l = ?dl \<and> js_lt ?be (num (length (visible (tl pre)))) \<and>
        (\<forall>k<length l. \<not> array_includes ?mp (num (length (visible (tl pre)) + k)))"
    if eq: "?g # cells @ rest = pre @ Styled dimst (map Ch l) # post"
      and pre: "pre \<noteq> []" and l: "l \<noteq> []" for pre l post
  proof -
    from pre eq have tl: "cells @ rest = tl pre @ Styled dimst (map Ch l) # post"
      by (cases pre) simp_all
    from lb tl l have "l = ?dl \<and> js_lt ?be (num (length (visible (tl pre))))"
      unfolding labels_behind_def by blast
    with free [OF tl l] show ?thesis by blast
  qed
  then show ?thesis using row by blast
qed

section \<open>A duration label that is never written\<close>

lemma row_loop_never_armed:
  assumes never: "\<And>j. of_nat j \<le> q \<Longrightarrow> \<not> js_eq (num j) be"
  shows "renderTaskRow_loop mp bs be (Fin q) c d dl 0 line0 None =
           Some (line0 @ map (timelineChar mp bs be c d) [0 ..< nat (\<lfloor>q\<rfloor> + 1)], None)"
proof -
  let ?n = "nat (\<lfloor>q\<rfloor> + 1)"
  let ?P = "\<lambda>i line pend. pend = None \<and> i \<le> ?n \<and>
              line = line0 @ map (timelineChar mp bs be c d) [0 ..< i]"
  have init: "?P 0 line0 None" by simp
  have place: "?P (Suc (i + (length (the pend) - 1))) (line @ [Styled d (map Ch (the pend))]) None"
    if "?P i line pend" and "js_le (num i) (Fin q)" and "placesLabel mp i pend" for i line pend
    using that(1,3) by (simp add: placesLabel_def)
  have cell: "?P (Suc i) (line @ [timelineChar mp bs be c d i])
                (if js_eq (num i) be \<and> pend = None then Some dl else pend)"
    if P: "?P i line pend" and le: "js_le (num i) (Fin q)" and "\<not> placesLabel mp i pend"
    for i line pend
  proof -
    from le have iq: "of_nat i \<le> q" by simp
    then have "int i \<le> \<lfloor>q\<rfloor>" by (simp add: le_floor_iff)
    then have "Suc i \<le> ?n" by linarith
    then show ?thesis using P never [OF iq] by simp
  qed
  have fin: "Fin q \<noteq> PInf" by simp
  from row_loop_rule [of "Fin q" ?P 0 line0 None mp d bs be c dl, OF fin init place cell]
  obtain i' line' pend' where
    run: "renderTaskRow_loop mp bs be (Fin q) c d dl 0 line0 None = Some (line', pend')"
    and P: "?P i' line' pend'" and out: "\<not> js_le (num i') (Fin q)" by blast
  from out have "\<not> int i' \<le> \<lfloor>q\<rfloor>" by (simp add: le_floor_iff)
  then have "?n \<le> i'" by linarith
  with P have "i' = ?n" by simp
  with P run show ?thesis by simp
qed

lemma cells_glyphs: "set (visible (map (timelineChar mp bs be c d) xs)) \<subseteq> {VBar, Nbsp}"
  by (induction xs) (auto simp: glyphs_timelineChar)

lemma cells_no_label:
  assumes "l \<noteq> []"
  shows "Styled d' (map Ch l) \<notin> set (map (timelineChar mp bs be c d) xs)"
proof
  assume "Styled d' (map Ch l) \<in> set (map (timelineChar mp bs be c d) xs)"
  then obtain i where "timelineChar mp bs be c d i = Styled d' (map Ch l)" by auto
  then show False using timelineChar_not_label [OF assms] by blast
qed

text \<open>
  C3 fails on the code. With the tasks \<open>a#build\<close> over \<open>[0, 100]\<close> and \<open>b#test\<close> over
  \<open>[99, 100]\<close>, the bar of \<open>b#test\<close> starts at column 99 and, widened to the minimum of
  three columns, ends at column 102, beyond the last column 100. The loop arms the pending
  label only at the column \<open>barEnd\<close>, which it never reaches: the row of \<open>b#test\<close> is
  its gutter and the 101 cells of the timeline, without the label \<^verbatim>\<open>1ms\<close>.
\<close>

theorem duration_label_dropped:
  "getTaskBarBounds (new_TimelineRenderer [sample_build, sample_test] TIMELINE_WIDTH) sample_test
     = (Fin 99, Fin 102) \<and>
   formatDuration (js_sub (tnum (exec_endTime sample_test)) (tnum (exec_startTime sample_test))) = ''1ms'' \<and>
   (\<exists>row. renderTaskRow (new_TimelineRenderer [sample_build, sample_test] TIMELINE_WIDTH) Dim sample_test
            (getMarkerPositions (new_TimelineRenderer [sample_build, sample_test] TIMELINE_WIDTH)) = Some row \<and>
          length row = 102 \<and> Styled Dim (map Ch ''1ms'') \<notin> set row \<and>
          Ch CHR ''m'' \<notin> set (visible row))"
proof -
  let ?r = "new_TimelineRenderer [sample_build, sample_test] TIMELINE_WIDTH"
  let ?mp = "getMarkerPositions ?r"
  have bb: "getTaskBarBounds ?r sample_test = (Fin 99, Fin 102)"
    by (simp add: getTaskBarBounds_def renderer_eval sample_simps)
  have dl: "formatDuration (js_sub (tnum (exec_endTime sample_test)) (tnum (exec_startTime sample_test))) = ''1ms''"
    by (simp add: formatDuration_def js_sub_def sample_simps show_nat_small digit_char_def)
  have w: "timeToChars ?r (totalDuration ?r) = Fin 100"
    by (simp add: renderer_eval sample_simps)
  have g: "padEnd (taskId sample_test) (labelWidth ?r) = ''b#test   ''"
    by (simp add: renderer_eval sample_simps padEnd_def) (simp add: numeral_eq_Suc)
  have never: "\<not> js_eq (num j) (Fin 102)" if "of_nat j \<le> (100::rat)" for j
    using that by (auto simp: js_eq_def)
  define cells where
    "cells = map (timelineChar ?mp (Fin 99) (Fin 102) (getTaskColor ?r sample_test) Dim) [0 ..< 101]"
  have n: "nat (\<lfloor>100::rat\<rfloor> + 1) = 101" by simp
  have "renderTaskRow ?r Dim sample_test ?mp =
          map_option (flushLabel Dim) (Some ([Styled Gray (map Ch ''b#test   '')] @ cells, None))"
    unfolding renderTaskRow_def Let_def bb w g prod.case dl cells_def
    by (simp only: row_loop_never_armed [of 100, OF never] n)
  then have row: "renderTaskRow ?r Dim sample_test ?mp = Some (Styled Gray (map Ch ''b#test   '') # cells)"
    by (simp add: flushLabel_def)
  have len: "length cells = 101" unfolding cells_def by (simp only: length_map length_upt diff_zero)
  have nolabel: "Styled Dim (map Ch ''1ms'') \<notin> set cells"
    unfolding cells_def by (rule cells_no_label) simp
  have "set (visible cells) \<subseteq> {VBar, Nbsp}"
    unfolding cells_def by (rule cells_glyphs)
  then have nom: "Ch CHR ''m'' \<notin> set (visible cells)" by auto
  show ?thesis using bb dl row nolabel nom len by simp
qed

section \<open>Degenerate inputs: a zero duration and the empty list\<close>

lemma renderRows_map:
  assumes "\<And>t. t \<in> set ts \<Longrightarrow> renderTaskRow r d t mp = Some (f t)"
  shows "renderRows r d mp ts = Some (map f ts)"
  using assms by (induction ts) simp_all

lemma row_without_columns:
  assumes "timeToChars r (totalDuration r) = NaN"
  shows "renderTaskRow r d task mp = Some [Styled Gray (map Ch (padEnd (taskId task) (labelWidth r)))]"
proof -
  obtain bs be where bb: "getTaskBarBounds r task = (bs, be)" by (cases "getTaskBarBounds r task")
  show ?thesis
    by (simp add: renderTaskRow_def Let_def bb assms row_loop_exit flushLabel_def)
qed

lemma axis_loop1_exit:
  "\<not> (js_le cp bound \<and> k < length tss) \<Longrightarrow>
   renderTimeAxis_loop1 bound tss cp k ml ll = Some (cp, k, ml, ll)"
  by (subst renderTimeAxis_loop1.simps) auto

lemma axis_loop2_exit:
  "\<not> js_le cp bound \<Longrightarrow> renderTimeAxis_loop2 bound cp ml ll = Some (ml, ll)"
  by (subst renderTimeAxis_loop2.simps) auto

lemma js_repeat_num: "js_repeat g (num n) = Inr (replicate n g)"
proof -
  have "\<not> (of_nat n :: rat) \<le> - 1" by (simp add: not_le)
  then show ?thesis by (simp add: js_repeat_def)
qed

lemma axis_without_columns:
  assumes w: "timeToChars r (totalDuration r) = NaN" and lw: "labelWidth r = num n"
  shows "renderTimeAxis r d = Some (Inr ([Styled d (replicate n Space)], [Styled d (replicate n Space)]))"
  by (simp add: renderTimeAxis_def Let_def w lw js_repeat_num axis_loop1_exit axis_loop2_exit f64_add_def)

lemma same_times:
  assumes ne: "tasks \<noteq> []"
    and same: "\<forall>t\<in>set tasks. exec_startTime t = c \<and> exec_endTime t = c"
  shows "earliestStart tasks = c" and "latestEnd tasks = c"
proof -
  have s: "exec_startTime ` set tasks = {c}"
    using ne same by (cases tasks) auto
  have e: "exec_endTime ` set tasks = {c}"
    using ne same by (cases tasks) auto
  show "earliestStart tasks = c" by (simp add: earliestStart_def s)
  show "latestEnd tasks = c" by (simp add: latestEnd_def e)
qed


text \<open>
  C1 fails on the code: nothing guards the division by a zero \<open>totalDuration\<close>. For the
  single task \<open>a#lint\<close> over \<open>[5, 5]\<close>, \<open>msToChars\<close> is \<^verbatim>\<open>Infinity\<close>, both bounds of the
  bar are \<^verbatim>\<open>NaN\<close>, and the row holds the gutter only: no bar of the minimum width.
\<close>

theorem zero_duration_counterexample:
  "totalDuration (new_TimelineRenderer [sample_instant] TIMELINE_WIDTH) = Fin 0 \<and>
   msToChars (new_TimelineRenderer [sample_instant] TIMELINE_WIDTH) = PInf \<and>
   getTaskBarBounds (new_TimelineRenderer [sample_instant] TIMELINE_WIDTH) sample_instant = (NaN, NaN) \<and>
   renderTaskRow (new_TimelineRenderer [sample_instant] TIMELINE_WIDTH) Dim sample_instant
     (getMarkerPositions (new_TimelineRenderer [sample_instant] TIMELINE_WIDTH))
     = Some [Styled Gray (map Ch ''a#lint  '')]"
proof -
  let ?r = "new_TimelineRenderer [sample_instant] TIMELINE_WIDTH"
  have d: "totalDuration ?r = Fin 0" by (simp add: renderer_eval sample_simps)
  have m: "msToChars ?r = PInf" by (simp add: renderer_eval sample_simps)
  have bb: "getTaskBarBounds ?r sample_instant = (NaN, NaN)"
    by (simp add: getTaskBarBounds_def renderer_eval sample_simps)
  have w: "timeToChars ?r (totalDuration ?r) = NaN" by (simp add: renderer_eval sample_simps)
  have g: "padEnd (taskId sample_instant) (labelWidth ?r) = ''a#lint  ''"
    by (simp add: renderer_eval sample_simps padEnd_def) (simp add: numeral_eq_Suc)
  show ?thesis using d m bb row_without_columns [OF w, of Dim sample_instant] g by simp
qed

text \<open>
  C1, amended: for a non-empty task list in which every task starts and ends at the same
  instant, rendering does not throw and ends, but the output is not a chart of bars of
  minimum width: \<open>msToChars\<close> is \<^verbatim>\<open>Infinity\<close>, the bounds of every bar are \<^verbatim>\<open>NaN\<close>,
  every row is the padded task identifier alone (no bar cell, no marker, no duration
  label), and the two lines of the axis are \<open>labelWidth\<close> blanks each.
\<close>

theorem zero_duration_render:
  assumes ne: "tasks \<noteq> []"
    and same: "\<forall>t\<in>set tasks. exec_startTime t = c \<and> exec_endTime t = c"
  shows "msToChars (new_TimelineRenderer tasks TIMELINE_WIDTH) = PInf \<and>
         (\<forall>t\<in>set tasks. getTaskBarBounds (new_TimelineRenderer tasks TIMELINE_WIDTH) t = (NaN, NaN)) \<and>
         main_render dimst tasks =
           Some (map (\<lambda>t. [Styled Gray (map Ch (padEnd (taskId t) (num (min (longestId tasks + 2) 45))))])
                   (groupAndSortTasks tasks)
                 @ [[Styled dimst (replicate (min (longestId tasks + 2) 45) Space)],
                    [Styled dimst (replicate (min (longestId tasks + 2) 45) Space)]],
                 None)"
proof -
  let ?r = "new_TimelineRenderer tasks TIMELINE_WIDTH"
  let ?n = "min (longestId tasks + 2) 45"
  note st = same_times [OF ne same]
  have eq: "latestEnd tasks = earliestStart tasks" by (simp add: st)
  have lw: "labelWidth ?r = num ?n" by (rule renderer_fields(5) [OF ne])
  have ms: "msToChars ?r = PInf"
    by (simp add: renderer_fields(4) [OF ne] eq TIMELINE_WIDTH_def f64_div_def)
  have bb: "getTaskBarBounds ?r t = (NaN, NaN)" if "t \<in> set tasks" for t
  proof -
    from that same have "exec_startTime t = c" "exec_endTime t = c" by auto
    then show ?thesis
      by (simp add: getTaskBarBounds_def Let_def timeToChars_def ms renderer_fields(1) [OF ne]
            st js_sub_def f64_sub_def f64_mul_def f64_add_def js_max2_def)
  qed
  have w: "timeToChars ?r (totalDuration ?r) = NaN" by (rule width_zero [OF ne eq])
  have rows: "renderRows ?r dimst (getMarkerPositions ?r) (groupAndSortTasks tasks) =
          Some (map (\<lambda>t. [Styled Gray (map Ch (padEnd (taskId t) (num ?n)))]) (groupAndSortTasks tasks))"
    by (rule renderRows_map) (simp add: row_without_columns [OF w] lw)
  have "main_render dimst tasks =
          Some (map (\<lambda>t. [Styled Gray (map Ch (padEnd (taskId t) (num ?n)))]) (groupAndSortTasks tasks)
                @ [[Styled dimst (replicate ?n Space)], [Styled dimst (replicate ?n Space)]], None)"
    by (simp add: main_render_def render_def Let_def rows axis_without_columns [OF w lw])
  then show ?thesis using ms bb by blast
qed

theorem zero_duration_render_witness:
  "[sample_instant] \<noteq> [] \<and>
   (exec_startTime sample_instant = 5 \<and> exec_endTime sample_instant = 5) \<and>
   msToChars (new_TimelineRenderer [sample_instant] TIMELINE_WIDTH) = PInf \<and>
   getTaskBarBounds (new_TimelineRenderer [sample_instant] TIMELINE_WIDTH) sample_instant = (NaN, NaN)"
proof -
  have ne: "[sample_instant] \<noteq> []" by simp
  have same: "\<forall>t\<in>set [sample_instant]. exec_startTime t = 5 \<and> exec_endTime t = 5"
    by (simp add: sample_simps)
  from zero_duration_render [OF ne same, of Dim] same show ?thesis by simp
qed

text \<open>
  C9: for the empty task list, nothing is printed and \<^verbatim>\<open>render\<close> throws. The constructor
  computes \<open>labelWidth = -Infinity\<close>; there is no row to print; and
  \<^verbatim>\<open>" ".repeat(labelWidth)\<close>, the first statement of the axis that builds text, throws
  \<^verbatim>\<open>RangeError\<close> before an axis line exists.
\<close>

theorem empty_task_list_fails:
  "labelWidth (new_TimelineRenderer [] TIMELINE_WIDTH) = NInf \<and>
   groupAndSortTasks [] = [] \<and>
   renderTimeAxis (new_TimelineRenderer [] TIMELINE_WIDTH) dimst = Some (Inl RangeError) \<and>
   main_render dimst [] = Some ([], Some RangeError)"
  by (simp add: main_render_def render_def groupAndSortTasks_def sortedGroups_def packageGroups_def
      js_sort_def renderTimeAxis_def new_TimelineRenderer_def Math_max_def Math_min_def js_min2_def
      MAX_LABEL_WIDTH_def js_repeat_def Let_def)

section \<open>The order of the display sequence\<close>

subsection \<open>The sort\<close>

lemma js_sort_insert_insort:
  assumes "\<And>y. y \<in> set ys \<Longrightarrow> js_gt (cmp x y) (Fin 0) = (f y < f x)"
  shows "js_sort_insert cmp x ys = insort_key f x ys"
  using assms by (induction ys) (auto simp: not_less)

lemma js_sort_sort_key:
  fixes f :: "'a \<Rightarrow> 'b::linorder"
  assumes "\<And>x y. x \<in> set xs \<Longrightarrow> y \<in> set xs \<Longrightarrow> js_gt (cmp x y) (Fin 0) = (f y < f x)"
  shows "js_sort cmp xs = sort_key f xs"
  using assms
proof (induction xs)
  case Nil
  then show ?case by (simp add: js_sort_def)
next
  case (Cons x xs)
  have tl: "js_sort cmp xs = sort_key f xs" using Cons by simp
  have "js_sort cmp (x # xs) = js_sort_insert cmp x (sort_key f xs)"
    using tl by (simp add: js_sort_def)
  also have "\<dots> = insort_key f x (sort_key f xs)"
    by (rule js_sort_insert_insort) (simp add: Cons.prems)
  finally show ?case by simp
qed

lemma byStartTime_gt: "js_gt (byStartTime a b) (Fin 0) = (exec_startTime b < exec_startTime a)"
  by (simp add: byStartTime_def js_sub_def js_gt_def)

lemma sort_byStartTime: "js_sort byStartTime g = sort_key exec_startTime g"
  by (rule js_sort_sort_key) (rule byStartTime_gt)

lemma minStart_earliest: "g \<noteq> [] \<Longrightarrow> minStart g = tnum (earliestStart g)"
proof -
  assume ne: "g \<noteq> []"
  have "Min ((\<lambda>t. of_int (exec_startTime t) :: rat) ` set g) = of_int (Min (exec_startTime ` set g))"
    using ne mono_Min_commute [of "of_int :: int \<Rightarrow> rat" "exec_startTime ` set g"]
    by (simp add: mono_def image_image)
  then show ?thesis using ne by (simp add: minStart_def Math_min_map_Fin earliestStart_def)
qed

lemma byMinStart_gt:
  "snd a \<noteq> [] \<Longrightarrow> snd b \<noteq> [] \<Longrightarrow>
   js_gt (byMinStart a b) (Fin 0) = (earliestStart (snd b) < earliestStart (snd a))"
  by (simp add: byMinStart_def minStart_earliest js_sub_def js_gt_def)

subsection \<open>The groups\<close>

lemma set_js_Set_acc:
  "set (foldl (\<lambda>acc x. if x \<in> set acc then acc else acc @ [x]) acc xs) = set acc \<union> set xs"
  by (induction xs arbitrary: acc) auto

lemma set_js_Set [simp]: "set (js_Set xs) = set xs"
  by (simp add: js_Set_def set_js_Set_acc)

lemma js_Set_snoc:
  "js_Set (xs @ [x]) = (if x \<in> set xs then js_Set xs else js_Set xs @ [x])"
  using set_js_Set [of xs] by (simp add: js_Set_def)

lemma distinct_js_Set [simp]: "distinct (js_Set xs)"
  by (induction xs rule: rev_induct) (simp_all add: js_Set_snoc, simp add: js_Set_def)

lemma js_Set_Nil [simp]: "js_Set [] = []"
  by (simp add: js_Set_def)

lemma packageGroups_snoc: "packageGroups (ts @ [t]) = group_push t (packageGroups ts)"
  by (simp add: packageGroups_def)

lemma group_push_absent:
  "package t \<notin> set ks \<Longrightarrow>
   group_push t (map (\<lambda>k. (k, F k)) ks) = map (\<lambda>k. (k, F k)) ks @ [(package t, [t])]"
  by (induction ks) auto

lemma group_push_present:
  "package t \<in> set ks \<Longrightarrow> distinct ks \<Longrightarrow>
   group_push t (map (\<lambda>k. (k, F k)) ks) =
     map (\<lambda>k. (k, if k = package t then F k @ [t] else F k)) ks"
  by (induction ks) (auto simp: group_push_absent)

lemma packageGroups_filter:
  "packageGroups ts =
     map (\<lambda>k. (k, filter (\<lambda>t. package t = k) ts)) (js_Set (map package ts))"
proof (induction ts rule: rev_induct)
  case Nil
  then show ?case by (simp add: packageGroups_def)
next
  case (snoc t ts)
  let ?ks = "js_Set (map package ts)"
  show ?case
  proof (cases "package t \<in> set (map package ts)")
    case True
    then have mem: "package t \<in> set ?ks" by simp
    have "group_push t (map (\<lambda>k. (k, filter (\<lambda>t. package t = k) ts)) ?ks) =
          map (\<lambda>k. (k, if k = package t then filter (\<lambda>t. package t = k) ts @ [t]
                        else filter (\<lambda>t. package t = k) ts)) ?ks"
      by (rule group_push_present [OF mem]) simp
    also have "\<dots> = map (\<lambda>k. (k, filter (\<lambda>u. package u = k) (ts @ [t]))) ?ks"
      by (rule map_cong) auto
    finally show ?thesis using True by (simp add: packageGroups_snoc snoc.IH js_Set_snoc)
  next
    case False
    then have nm: "package t \<notin> set ?ks" by simp
    have "\<forall>u\<in>set ts. package u \<noteq> package t"
      using False by (metis image_eqI list.set_map)
    then have none: "filter (\<lambda>u. package u = package t) ts = []"
      by (simp add: filter_empty_conv)
    have last: "filter (\<lambda>u. package u = package t) (ts @ [t]) = [t]"
      using none by simp
    have set: "js_Set (map package (ts @ [t])) = ?ks @ [package t]"
      using False by (simp add: js_Set_snoc)
    have "packageGroups (ts @ [t]) =
          group_push t (map (\<lambda>k. (k, filter (\<lambda>u. package u = k) ts)) ?ks)"
      by (simp only: packageGroups_snoc snoc.IH)
    also have "\<dots> = map (\<lambda>k. (k, filter (\<lambda>u. package u = k) ts)) ?ks @ [(package t, [t])]"
      by (rule group_push_absent [OF nm])
    also have "map (\<lambda>k. (k, filter (\<lambda>u. package u = k) ts)) ?ks =
               map (\<lambda>k. (k, filter (\<lambda>u. package u = k) (ts @ [t]))) ?ks"
      using nm by (intro map_cong) auto
    finally have run: "packageGroups (ts @ [t]) =
        map (\<lambda>k. (k, filter (\<lambda>u. package u = k) (ts @ [t]))) ?ks @ [(package t, [t])]" .
    have "map (\<lambda>k. (k, filter (\<lambda>u. package u = k) (ts @ [t]))) (?ks @ [package t]) =
          map (\<lambda>k. (k, filter (\<lambda>u. package u = k) (ts @ [t]))) ?ks @ [(package t, [t])]"
      by (simp only: map_append list.map last)
    then show ?thesis unfolding set run by simp
  qed
qed

subsection \<open>The display sequence\<close>

lemma group_nonempty:
  "k \<in> set (map package ts) \<Longrightarrow> filter (\<lambda>t. package t = k) ts \<noteq> []"
  by (auto simp: filter_empty_conv)

lemma sort_key_nonempty: "xs \<noteq> [] \<Longrightarrow> sort_key f xs \<noteq> []"
  by (metis length_0_conv length_sort)

lemma sortedGroups_sort_key:
  "sortedGroups tasks =
     sort_key (\<lambda>kg. earliestStart (snd kg))
       (map (\<lambda>k. (k, sort_key exec_startTime (filter (\<lambda>t. package t = k) tasks)))
          (js_Set (map package tasks)))"
proof -
  let ?grp = "\<lambda>k. sort_key exec_startTime (filter (\<lambda>t. package t = k) tasks)"
  let ?ks = "js_Set (map package tasks)"
  have inner: "map (\<lambda>(k, g). (k, js_sort byStartTime g)) (packageGroups tasks) =
               map (\<lambda>k. (k, ?grp k)) ?ks"
    by (simp add: packageGroups_filter sort_byStartTime comp_def)
  have ne: "snd kg \<noteq> []" if "kg \<in> set (map (\<lambda>k. (k, ?grp k)) ?ks)" for kg
  proof -
    from that obtain k where k: "k \<in> set ?ks" "kg = (k, ?grp k)" by auto
    from k(1) have "k \<in> set (map package tasks)" by (simp only: set_js_Set)
    from group_nonempty [OF this] have "?grp k \<noteq> []" by (rule sort_key_nonempty)
    then show ?thesis using k(2) by simp
  qed
  have "js_sort byMinStart (map (\<lambda>k. (k, ?grp k)) ?ks) =
        sort_key (\<lambda>kg. earliestStart (snd kg)) (map (\<lambda>k. (k, ?grp k)) ?ks)"
    by (rule js_sort_sort_key) (simp add: byMinStart_gt ne)
  then show ?thesis by (simp only: sortedGroups_def inner)
qed

lemma sg_elem:
  assumes "kg \<in> set (sortedGroups tasks)"
  shows "\<exists>k. k \<in> set (map package tasks) \<and>
             kg = (k, sort_key exec_startTime (filter (\<lambda>t. package t = k) tasks))"
proof -
  from assms obtain k where k: "k \<in> set (js_Set (map package tasks))"
      "kg = (k, sort_key exec_startTime (filter (\<lambda>t. package t = k) tasks))"
    unfolding sortedGroups_sort_key by auto
  from k(1) have "k \<in> set (map package tasks)" by (simp only: set_js_Set)
  with k(2) show ?thesis by blast
qed

lemma sg_distinct: "distinct (map fst (sortedGroups tasks))"
proof -
  let ?h = "\<lambda>k. (k, sort_key exec_startTime (filter (\<lambda>t. package t = k) tasks))"
  have "map fst (map ?h (js_Set (map package tasks))) = js_Set (map package tasks)"
    by (simp add: comp_def)
  moreover have "mset (map fst (sortedGroups tasks)) = mset (map fst (map ?h (js_Set (map package tasks))))"
    unfolding sortedGroups_sort_key by (simp only: mset_map mset_sort)
  ultimately have "mset (map fst (sortedGroups tasks)) = mset (js_Set (map package tasks))"
    by (simp only:)
  from mset_eq_imp_distinct_iff [OF this] show ?thesis by simp
qed

lemma sg_blocks:
  assumes "kg \<in> set (sortedGroups tasks)"
  shows "snd kg \<noteq> [] \<and> (\<forall>t\<in>set (snd kg). package t = fst kg)"
proof -
  from sg_elem [OF assms] obtain k where k: "k \<in> set (map package tasks)"
    "kg = (k, sort_key exec_startTime (filter (\<lambda>t. package t = k) tasks))" by blast
  from group_nonempty [OF k(1)]
  have "sort_key exec_startTime (filter (\<lambda>t. package t = k) tasks) \<noteq> []"
    by (rule sort_key_nonempty)
  then show ?thesis using k(2) by simp
qed

lemma sg_sorted: "sorted (map (\<lambda>kg. earliestStart (snd kg)) (sortedGroups tasks))"
  unfolding sortedGroups_sort_key by (rule sorted_sort_key)

lemma sg_inner_sorted:
  assumes "kg \<in> set (sortedGroups tasks)"
  shows "sorted (map exec_startTime (snd kg))"
  using sg_elem [OF assms] by (auto simp: sorted_sort_key)

lemma sg_inner_stable:
  assumes "kg \<in> set (sortedGroups tasks)"
  shows "filter (\<lambda>t. exec_startTime t = s) (snd kg) =
         filter (\<lambda>t. exec_startTime t = s) (filter (\<lambda>t. package t = fst kg) tasks)"
  using sg_elem [OF assms] by (auto simp: sort_key_stable)

lemma sg_outer_stable:
  "map fst (filter (\<lambda>kg. earliestStart (snd kg) = m) (sortedGroups tasks)) =
   filter (\<lambda>k. earliestStart (filter (\<lambda>t. package t = k) tasks) = m) (js_Set (map package tasks))"
proof -
  let ?grp = "\<lambda>k. sort_key exec_startTime (filter (\<lambda>t. package t = k) tasks)"
  let ?ks = "js_Set (map package tasks)"
  have "filter (\<lambda>kg. earliestStart (snd kg) = m) (sortedGroups tasks) =
        filter (\<lambda>kg. earliestStart (snd kg) = m) (map (\<lambda>k. (k, ?grp k)) ?ks)"
    unfolding sortedGroups_sort_key by (rule sort_key_stable)
  also have "map fst \<dots> = filter (\<lambda>k. earliestStart (?grp k) = m) ?ks"
    by (simp add: filter_map comp_def)
  also have "\<dots> = filter (\<lambda>k. earliestStart (filter (\<lambda>t. package t = k) tasks) = m) ?ks"
    by (simp add: earliestStart_def)
  finally show ?thesis .
qed

text \<open>
  C5: the display sequence is the concatenation of one group per package, so tasks of the
  same package are contiguous; the groups are in ascending order of the earliest start
  among their tasks; inside a group the tasks are in ascending order of their start; and
  ties keep the order of the input at both levels: tasks of one package with the same
  start are in their input order, and groups with the same earliest start are in the
  order in which their packages first occur in the input.
\<close>

theorem grouping_order:
  "groupAndSortTasks tasks = concat (map snd (sortedGroups tasks)) \<and>
   distinct (map fst (sortedGroups tasks)) \<and>
   (\<forall>kg\<in>set (sortedGroups tasks). snd kg \<noteq> [] \<and> (\<forall>t\<in>set (snd kg). package t = fst kg)) \<and>
   sorted (map (\<lambda>kg. earliestStart (snd kg)) (sortedGroups tasks)) \<and>
   (\<forall>kg\<in>set (sortedGroups tasks). sorted (map exec_startTime (snd kg))) \<and>
   (\<forall>kg\<in>set (sortedGroups tasks). \<forall>s.
      filter (\<lambda>t. exec_startTime t = s) (snd kg) =
      filter (\<lambda>t. exec_startTime t = s) (filter (\<lambda>t. package t = fst kg) tasks)) \<and>
   (\<forall>m. map fst (filter (\<lambda>kg. earliestStart (snd kg) = m) (sortedGroups tasks)) =
        filter (\<lambda>k. earliestStart (filter (\<lambda>t. package t = k) tasks) = m)
          (js_Set (map package tasks)))"
proof (intro conjI ballI allI)
  show "groupAndSortTasks tasks = concat (map snd (sortedGroups tasks))"
    by (simp add: groupAndSortTasks_def)
  show "distinct (map fst (sortedGroups tasks))" by (rule sg_distinct)
  show "sorted (map (\<lambda>kg. earliestStart (snd kg)) (sortedGroups tasks))" by (rule sg_sorted)
next
  fix kg assume kg: "kg \<in> set (sortedGroups tasks)"
  show "snd kg \<noteq> []" using sg_blocks [OF kg] by simp
  show "sorted (map exec_startTime (snd kg))" by (rule sg_inner_sorted [OF kg])
  show "filter (\<lambda>t. exec_startTime t = s) (snd kg) =
        filter (\<lambda>t. exec_startTime t = s) (filter (\<lambda>t. package t = fst kg) tasks)" for s
    by (rule sg_inner_stable [OF kg])
  show "package t = fst kg" if "t \<in> set (snd kg)" for t
    using sg_blocks [OF kg] that by simp
next
  fix m
  show "map fst (filter (\<lambda>kg. earliestStart (snd kg) = m) (sortedGroups tasks)) =
        filter (\<lambda>k. earliestStart (filter (\<lambda>t. package t = k) tasks) = m)
          (js_Set (map package tasks))"
    by (rule sg_outer_stable)
qed

theorem grouping_order_witness:
  "sortedGroups [sample_test, sample_build] = [(''a'', [sample_build]), (''b'', [sample_test])] \<and>
   (''b'', [sample_test]) \<in> set (sortedGroups [sample_test, sample_build]) \<and>
   groupAndSortTasks [sample_test, sample_build] = [sample_build, sample_test] \<and>
   distinct (map fst (sortedGroups [sample_test, sample_build])) \<and>
   sorted (map exec_startTime (snd (''b'', [sample_test]))) \<and>
   package sample_test = fst (''b'', [sample_test])"
proof -
  have sg: "sortedGroups [sample_test, sample_build] = [(''a'', [sample_build]), (''b'', [sample_test])]"
    by (simp add: sortedGroups_def packageGroups_def js_sort_def byMinStart_def byStartTime_def
          minStart_def Math_min_def js_min2_def js_sub_def js_gt_def sample_simps)
  have mem: "(''b'', [sample_test]) \<in> set (sortedGroups [sample_test, sample_build])"
    by (simp add: sg)
  from grouping_order [of "[sample_test, sample_build]"] mem sg show ?thesis by simp
qed


subsection \<open>No task is lost\<close>

lemma mset_js_sort_insert: "mset (js_sort_insert cmp x ys) = add_mset x (mset ys)"
  by (induction ys) auto

lemma mset_js_sort: "mset (js_sort cmp xs) = mset xs"
  by (induction xs) (simp_all add: js_sort_def mset_js_sort_insert)

lemma mset_concat_perm: "mset xss = mset yss \<Longrightarrow> mset (concat xss) = mset (concat yss)"
  by (metis mset_concat mset_map sum_mset_sum_list)

lemma mset_group_push:
  "mset (concat (map snd (group_push t m))) = add_mset t (mset (concat (map snd m)))"
  by (induction m) auto

lemma mset_packageGroups: "mset (concat (map snd (packageGroups ts))) = mset ts"
  by (induction ts rule: rev_induct) (simp_all add: packageGroups_snoc mset_group_push, simp add: packageGroups_def)

lemma mset_sorted_inside:
  "mset (concat (map snd (map (\<lambda>(k, g). (k, js_sort cmp g)) m))) = mset (concat (map snd m))"
  by (induction m) (auto simp: mset_js_sort)

lemma mset_groupAndSortTasks: "mset (groupAndSortTasks tasks) = mset tasks"
proof -
  let ?m = "map (\<lambda>(k, g). (k, js_sort byStartTime g)) (packageGroups tasks)"
  have "mset (map snd (js_sort byMinStart ?m)) = mset (map snd ?m)"
    by (simp only: mset_map mset_js_sort)
  then have "mset (concat (map snd (js_sort byMinStart ?m))) = mset (concat (map snd ?m))"
    by (rule mset_concat_perm)
  then show ?thesis
    by (simp only: groupAndSortTasks_def sortedGroups_def mset_sorted_inside mset_packageGroups)
qed

lemma renderRows_length:
  assumes "timeToChars r (totalDuration r) \<noteq> PInf"
  shows "\<exists>rows. renderRows r d mp ts = Some rows \<and> length rows = length ts"
proof (induction ts)
  case Nil
  then show ?case by simp
next
  case (Cons t ts)
  from renderTaskRow_cells [OF assms, of d t mp] obtain row where "renderTaskRow r d t mp = Some row"
    by blast
  with Cons show ?case by auto
qed

lemma width_empty:
  "timeToChars (new_TimelineRenderer [] TIMELINE_WIDTH)
     (totalDuration (new_TimelineRenderer [] TIMELINE_WIDTH)) = NaN"
  by (simp add: renderer_eval)

text \<open>
  C10: the display sequence is a permutation of the input, with every task as often as in
  the input, and the rows of the chart are as many as the tasks: each task of the
  sequence gets one row, and the loop of each row ends.
\<close>

theorem one_row_per_task:
  "mset (groupAndSortTasks tasks) = mset tasks \<and>
   length (groupAndSortTasks tasks) = length tasks \<and>
   (\<exists>rows. renderRows (new_TimelineRenderer tasks TIMELINE_WIDTH) dimst
              (getMarkerPositions (new_TimelineRenderer tasks TIMELINE_WIDTH))
              (groupAndSortTasks tasks) = Some rows \<and>
           length rows = length tasks)"
proof -
  let ?r = "new_TimelineRenderer tasks TIMELINE_WIDTH"
  have m: "mset (groupAndSortTasks tasks) = mset tasks" by (rule mset_groupAndSortTasks)
  then have l: "length (groupAndSortTasks tasks) = length tasks" by (rule mset_eq_length)
  have "timeToChars ?r (totalDuration ?r) \<noteq> PInf"
    by (cases "tasks = []") (simp_all add: width_empty width_not_PInf)
  from renderRows_length [OF this, of dimst "getMarkerPositions ?r" "groupAndSortTasks tasks"] m l
  show ?thesis by auto
qed

section \<open>Determinism and colours\<close>

lemma colors_fold_other:
  "k \<notin> set ks \<Longrightarrow>
   foldl (\<lambda>m (pkg, index). m(pkg \<mapsto> f index)) m0 (zip ks js) k = m0 k"
  by (induction ks arbitrary: m0 js) (auto simp: zip_Cons1 split: list.splits)

lemma colors_fold_nth:
  "distinct ks \<Longrightarrow> i < length ks \<Longrightarrow> length js = length ks \<Longrightarrow>
   foldl (\<lambda>m (pkg, index). m(pkg \<mapsto> f index)) m0 (zip ks js) (ks ! i) = Some (f (js ! i))"
proof (induction ks arbitrary: m0 js i)
  case Nil
  then show ?case by simp
next
  case (Cons k ks)
  from Cons.prems(3) obtain j js' where js: "js = j # js'" "length js' = length ks"
    by (cases js) simp_all
  show ?case
  proof (cases i)
    case 0
    have nk: "k \<notin> set ks" using Cons.prems(1) by simp
    have "foldl (\<lambda>m (pkg, index). m(pkg \<mapsto> f index)) (m0(k \<mapsto> f j)) (zip ks js') k =
          (m0(k \<mapsto> f j)) k"
      by (rule colors_fold_other [OF nk])
    then show ?thesis
      unfolding 0 js by (simp only: zip_Cons_Cons foldl_Cons prod.case nth_Cons_0) simp
  next
    case (Suc i')
    then have i': "i' < length ks" using Cons.prems(2) by simp
    have d: "distinct ks" using Cons.prems(1) by simp
    from Cons.IH [OF d i' js(2), of "m0(k \<mapsto> f j)"]
    show ?thesis
      unfolding Suc js by (simp only: zip_Cons_Cons foldl_Cons prod.case nth_Cons_Suc)
  qed
qed

lemma assignPackageColors_nth:
  assumes "i < length (js_Set (map package tasks))"
  shows "assignPackageColors tasks (js_Set (map package tasks) ! i) =
           Some (colorCodes ! (i mod length colorCodes))"
proof -
  let ?ks = "js_Set (map package tasks)"
  from colors_fold_nth [of ?ks i "[0 ..< length ?ks]"
      "\<lambda>j. colorCodes ! (j mod length colorCodes)" Map.empty] assms
  show ?thesis by (simp add: assignPackageColors_def Let_def)
qed

text \<open>
  C8: rendering is a function of the task list (and of the style chosen for \<^verbatim>\<open>dim\<close> at
  start-up), so two renders of the same input give the same lines; and the colours depend
  only on the order in which the packages first occur: two task lists with the same
  sequence of first occurrences get the same assignment, and the \<open>i\<close>-th package to occur
  gets the colour \<open>colorCodes[i mod 7]\<close>.
\<close>

theorem colors_first_seen:
  "(tasks = tasks' \<longrightarrow> main_render dimst tasks = main_render dimst tasks') \<and>
   (js_Set (map package tasks) = js_Set (map package tasks') \<longrightarrow>
      packageColors (new_TimelineRenderer tasks w) = packageColors (new_TimelineRenderer tasks' w')) \<and>
   (\<forall>i < length (js_Set (map package tasks)).
      packageColors (new_TimelineRenderer tasks w) (js_Set (map package tasks) ! i) =
        Some (colorCodes ! (i mod length colorCodes)))"
proof (intro conjI impI allI)
  assume "tasks = tasks'"
  then show "main_render dimst tasks = main_render dimst tasks'" by simp
next
  assume "js_Set (map package tasks) = js_Set (map package tasks')"
  then show "packageColors (new_TimelineRenderer tasks w) = packageColors (new_TimelineRenderer tasks' w')"
    by (simp add: new_TimelineRenderer_def Let_def assignPackageColors_def)
next
  fix i assume "i < length (js_Set (map package tasks))"
  then show "packageColors (new_TimelineRenderer tasks w) (js_Set (map package tasks) ! i) =
        Some (colorCodes ! (i mod length colorCodes))"
    by (simp add: new_TimelineRenderer_def Let_def assignPackageColors_nth)
qed

theorem colors_first_seen_witness:
  "js_Set (map package [sample_build, sample_test]) = js_Set (map package [sample_build, sample_test, sample_instant]) \<and>
   packageColors (new_TimelineRenderer [sample_build, sample_test] TIMELINE_WIDTH) =
     packageColors (new_TimelineRenderer [sample_build, sample_test, sample_instant] TIMELINE_WIDTH) \<and>
   (1::nat) < length (js_Set (map package [sample_build, sample_test])) \<and>
   packageColors (new_TimelineRenderer [sample_build, sample_test] TIMELINE_WIDTH) ''b'' = Some 31"
proof -
  have s: "js_Set (map package [sample_build, sample_test]) = [''a'', ''b'']"
    by (simp add: js_Set_def sample_simps)
  have s': "js_Set (map package [sample_build, sample_test, sample_instant]) = [''a'', ''b'']"
    by (simp add: js_Set_def sample_simps)
  note th = colors_first_seen [of "[sample_build, sample_test]" "[sample_build, sample_test, sample_instant]"
      Dim TIMELINE_WIDTH TIMELINE_WIDTH]
  have same: "js_Set (map package [sample_build, sample_test]) =
              js_Set (map package [sample_build, sample_test, sample_instant])"
    by (simp only: s s')
  from th same have A: "packageColors (new_TimelineRenderer [sample_build, sample_test] TIMELINE_WIDTH) =
     packageColors (new_TimelineRenderer [sample_build, sample_test, sample_instant] TIMELINE_WIDTH)"
    by blast
  from th have "\<forall>i < length [''a'', ''b''].
      packageColors (new_TimelineRenderer [sample_build, sample_test] TIMELINE_WIDTH) ([''a'', ''b''] ! i) =
        Some (colorCodes ! (i mod length colorCodes))"
    unfolding s by blast
  from this [rule_format, of 1]
  have B: "packageColors (new_TimelineRenderer [sample_build, sample_test] TIMELINE_WIDTH) ''b'' = Some 31"
    by (simp add: colorCodes_def)
  have len: "(1::nat) < length (js_Set (map package [sample_build, sample_test]))"
    by (simp only: s) simp
  show ?thesis by (intro conjI same A len B)
qed

section \<open>The loops of the axis\<close>

lemma js_add_num: "js_add (num a) (Fin 1) = num (Suc a)" "js_add (num a) (num b) = num (a + b)"
  by (simp_all add: add.commute)

lemma js_lt_num [simp]: "js_lt (num a) (num b) = (a < b)"
  by simp

lemma js_eq_num [simp]: "js_eq (num a) (num b) = (a = b)"
  by (simp add: js_eq_def)

lemma js_le_num [simp]: "js_le (num a) (num b) = (a \<le> b)"
  by simp

lemma axis_loop1_blank:
  "js_le cp bound \<Longrightarrow> k < length tss \<Longrightarrow> js_lt cp (fst (tss ! k)) \<Longrightarrow>
   renderTimeAxis_loop1 bound tss cp k ml ll =
   renderTimeAxis_loop1 bound tss (js_add cp (Fin 1)) k (ml @ [Space]) (ll @ [Space])"
  by (subst renderTimeAxis_loop1.simps) (simp add: Let_def)

lemma axis_loop1_mark:
  assumes "js_le cp bound" and "k < length tss" and "\<not> js_lt cp (fst (tss ! k))"
    and eq: "js_eq cp (fst (tss ! k))"
  shows "renderTimeAxis_loop1 bound tss cp k ml ll =
     (if labelPlaced tss k then
        renderTimeAxis_loop1 bound tss
          (js_add (js_add cp (Fin 1)) (num (length (snd (tss ! k))))) (Suc k)
          (ml @ [VBar] @ replicate (length (snd (tss ! k))) Space)
          (ll @ [VBar] @ map Ch (snd (tss ! k)))
      else
        renderTimeAxis_loop1 bound tss (js_add cp (Fin 1)) (Suc k) (ml @ [VBar]) (ll @ [VBar]))"
proof -
  from eq have cp: "fst (tss ! k) = cp" by (simp add: js_eq_def)
  show ?thesis
    using assms by (subst renderTimeAxis_loop1.simps) (simp add: Let_def labelPlaced_def cp)
qed

text \<open>The rule of the first loop of the axis, for timestamps at finite columns: an
  invariant under which \<open>currentPos\<close> is never beyond the current timestamp is kept until
  the loop ends, and the loop ends.\<close>

lemma axis_loop1_rule:
  assumes init: "P c k ml ll"
    and pos: "\<And>k. k < length tss \<Longrightarrow> fst (tss ! k) = num (pos k)"
    and ahead: "\<And>c k ml ll. P c k ml ll \<Longrightarrow> c \<le> b \<Longrightarrow> k < length tss \<Longrightarrow> c \<le> pos k"
    and blank: "\<And>c k ml ll. P c k ml ll \<Longrightarrow> c \<le> b \<Longrightarrow> k < length tss \<Longrightarrow> c < pos k \<Longrightarrow>
        P (Suc c) k (ml @ [Space]) (ll @ [Space])"
    and placed: "\<And>c k ml ll. P c k ml ll \<Longrightarrow> c \<le> b \<Longrightarrow> k < length tss \<Longrightarrow> c = pos k \<Longrightarrow>
        labelPlaced tss k \<Longrightarrow>
        P (Suc c + length (snd (tss ! k))) (Suc k)
          (ml @ [VBar] @ replicate (length (snd (tss ! k))) Space)
          (ll @ [VBar] @ map Ch (snd (tss ! k)))"
    and skipped: "\<And>c k ml ll. P c k ml ll \<Longrightarrow> c \<le> b \<Longrightarrow> k < length tss \<Longrightarrow> c = pos k \<Longrightarrow>
        \<not> labelPlaced tss k \<Longrightarrow> P (Suc c) (Suc k) (ml @ [VBar]) (ll @ [VBar])"
  shows "\<exists>c' k' ml' ll'.
           renderTimeAxis_loop1 (num b) tss (num c) k ml ll = Some (num c', k', ml', ll') \<and>
           P c' k' ml' ll' \<and> \<not> (c' \<le> b \<and> k' < length tss)"
  using init
proof (induction "(Suc b - c) + (length tss - k)" arbitrary: c k ml ll rule: less_induct)
  case less
  show ?case
  proof (cases "c \<le> b \<and> k < length tss")
    case False
    then have "renderTimeAxis_loop1 (num b) tss (num c) k ml ll = Some (num c, k, ml, ll)"
      by (intro axis_loop1_exit) simp
    then show ?thesis using less.prems False by blast
  next
    case True
    then have cb: "c \<le> b" and kl: "k < length tss" by simp_all
    have le: "js_le (num c) (num b)" using cb by simp
    note p = pos [OF kl]
    from ahead [OF less.prems cb kl] have cp: "c \<le> pos k" .
    show ?thesis
    proof (cases "c < pos k")
      case lt: True
      have step: "renderTimeAxis_loop1 (num b) tss (num c) k ml ll =
                  renderTimeAxis_loop1 (num b) tss (num (Suc c)) k (ml @ [Space]) (ll @ [Space])"
      proof -
        have "js_lt (num c) (fst (tss ! k))" using lt by (simp add: p)
        from axis_loop1_blank [OF le kl this, of ml ll] show ?thesis
          by (simp only: js_add_num)
      qed
      have m: "(Suc b - Suc c) + (length tss - k) < (Suc b - c) + (length tss - k)"
        using cb by simp
      from less.hyps [OF m blank [OF less.prems cb kl lt]] show ?thesis
        by (simp only: step)
    next
      case False
      then have eq: "c = pos k" using cp by simp
      have nlt: "\<not> js_lt (num c) (fst (tss ! k))" by (simp add: p eq)
      have jeq: "js_eq (num c) (fst (tss ! k))" by (simp add: p eq)
      note mark = axis_loop1_mark [OF le kl nlt jeq, of ml ll]
      show ?thesis
      proof (cases "labelPlaced tss k")
        case pl: True
        have step: "renderTimeAxis_loop1 (num b) tss (num c) k ml ll =
                    renderTimeAxis_loop1 (num b) tss (num (Suc c + length (snd (tss ! k)))) (Suc k)
                      (ml @ [VBar] @ replicate (length (snd (tss ! k))) Space)
                      (ll @ [VBar] @ map Ch (snd (tss ! k)))"
          using mark pl by (simp only: js_add_num if_True)
        have m: "(Suc b - (Suc c + length (snd (tss ! k)))) + (length tss - Suc k)
                 < (Suc b - c) + (length tss - k)"
          using kl by simp
        from less.hyps [OF m placed [OF less.prems cb kl eq pl]] show ?thesis
          by (simp only: step)
      next
        case pl: False
        have step: "renderTimeAxis_loop1 (num b) tss (num c) k ml ll =
                    renderTimeAxis_loop1 (num b) tss (num (Suc c)) (Suc k) (ml @ [VBar]) (ll @ [VBar])"
          using mark pl by (simp only: js_add_num if_False)
        have m: "(Suc b - Suc c) + (length tss - Suc k) < (Suc b - c) + (length tss - k)"
          using kl by simp
        from less.hyps [OF m skipped [OF less.prems cb kl eq pl]] show ?thesis
          by (simp only: step)
      qed
    qed
  qed
qed

lemma labelPlaced_last: "0 < length tss \<Longrightarrow> labelPlaced tss (length tss - 1)"
  by (simp add: labelPlaced_def)

lemma labelPlaced_gap:
  assumes pl: "labelPlaced tss k" and nx: "Suc k < length tss"
    and pk: "fst (tss ! k) = num (pos k)" and pn: "fst (tss ! Suc k) = num (pos (Suc k))"
  shows "Suc (pos k) + length (snd (tss ! k)) < pos (Suc k)"
proof -
  let ?l = "length (snd (tss ! k))"
  from nx have "k \<noteq> length tss - 1" by simp
  with pl nx have "js_ge (js_sub (num (pos (Suc k))) (js_add (num (pos k)) (Fin 1))) (num (?l + 1))"
    by (simp add: labelPlaced_def pk pn)
  then have "(of_nat (?l + 1) :: rat) \<le> of_nat (pos (Suc k)) - (of_nat (pos k) + 1)"
    by (simp add: js_ge_def js_sub_def)
  then have "(of_nat (?l + 1) + (of_nat (pos k) + 1) :: rat) \<le> of_nat (pos (Suc k))"
    by linarith
  then have "(of_nat (?l + 1 + (pos k + 1)) :: rat) \<le> of_nat (pos (Suc k))"
    by (simp only: of_nat_add of_nat_1)
  then have "?l + 1 + (pos k + 1) \<le> pos (Suc k)" by (simp only: of_nat_le_iff)
  then show ?thesis by simp
qed

lemma not_placed_not_last: "\<not> labelPlaced tss k \<Longrightarrow> k < length tss \<Longrightarrow> Suc k < length tss"
  by (cases "Suc k = length tss") (auto simp: labelPlaced_def)

lemma axis_ok_blank:
  assumes ok: "axis_ok tss pos c k ml ll" and kl: "k < length tss" and lt: "c < pos k"
  shows "axis_ok tss pos (Suc c) k (ml @ [Space]) (ll @ [Space])"
proof -
  from ok have len: "length ml = c" "length ll = c"
    and before: "\<forall>m<k. pos m < c"
    and mlb: "\<forall>j<c. (ml ! j = VBar) = (\<exists>m<k. j = pos m)"
    and llb: "\<forall>j<c. (ll ! j = VBar) = (\<exists>m<k. j = pos m)"
    and lab: "\<forall>m<k. labelPlaced tss m \<longrightarrow>
         Suc (pos m) + length (snd (tss ! m)) \<le> c \<and>
         take (length (snd (tss ! m))) (drop (Suc (pos m)) ll) = map Ch (snd (tss ! m))"
    by (simp_all add: axis_ok_def)
  have notpos: "\<not> (\<exists>m<k. c = pos m)" using before by auto
  have a: "k \<le> length tss" using kl by simp
  have b: "length (ml @ [Space]) = Suc c" "length (ll @ [Space]) = Suc c" using len by simp_all
  have c: "k < length tss \<longrightarrow> Suc c \<le> pos k" using lt by simp
  have d: "\<forall>m<k. pos m < Suc c" using before by (simp add: less_Suc_eq)
  have e: "\<forall>j<Suc c. ((ml @ [Space]) ! j = VBar) = (\<exists>m<k. j = pos m)"
    using mlb notpos len by (auto simp: nth_append less_Suc_eq)
  have f: "\<forall>j<Suc c. ((ll @ [Space]) ! j = VBar) = (\<exists>m<k. j = pos m)"
    using llb notpos len by (auto simp: nth_append less_Suc_eq)
  have g: "\<forall>m<k. labelPlaced tss m \<longrightarrow>
         Suc (pos m) + length (snd (tss ! m)) \<le> Suc c \<and>
         take (length (snd (tss ! m))) (drop (Suc (pos m)) (ll @ [Space])) = map Ch (snd (tss ! m))"
  proof (intro allI impI)
    fix m assume m: "m < k" "labelPlaced tss m"
    with lab have le: "Suc (pos m) + length (snd (tss ! m)) \<le> c"
      and tk: "take (length (snd (tss ! m))) (drop (Suc (pos m)) ll) = map Ch (snd (tss ! m))"
      by simp_all
    from le len have "length (snd (tss ! m)) \<le> length ll - Suc (pos m)" by simp
    then show "Suc (pos m) + length (snd (tss ! m)) \<le> Suc c \<and>
         take (length (snd (tss ! m))) (drop (Suc (pos m)) (ll @ [Space])) = map Ch (snd (tss ! m))"
      using le tk by simp
  qed
  have h: "k = length tss \<longrightarrow> 0 < k \<and> Suc c = Suc (pos (k - 1)) + length (snd (tss ! (k - 1)))"
    using kl by simp
  show ?thesis unfolding axis_ok_def by (intro conjI a b c d e f g h)
qed

lemma axis_ok_placed:
  assumes ok: "axis_ok tss pos c k ml ll" and kl: "k < length tss" and eq: "c = pos k"
    and gap: "Suc k < length tss \<longrightarrow> Suc (pos k) + length (snd (tss ! k)) < pos (Suc k)"
  shows "axis_ok tss pos (Suc c + length (snd (tss ! k))) (Suc k)
           (ml @ [VBar] @ replicate (length (snd (tss ! k))) Space)
           (ll @ [VBar] @ map Ch (snd (tss ! k)))"
proof -
  let ?l = "snd (tss ! k)"
  let ?ml = "ml @ [VBar] @ replicate (length ?l) Space"
  let ?ll = "ll @ [VBar] @ map Ch ?l"
  from ok have len: "length ml = c" "length ll = c"
    and before: "\<forall>m<k. pos m < c"
    and mlb: "\<forall>j<c. (ml ! j = VBar) = (\<exists>m<k. j = pos m)"
    and llb: "\<forall>j<c. (ll ! j = VBar) = (\<exists>m<k. j = pos m)"
    and lab: "\<forall>m<k. labelPlaced tss m \<longrightarrow>
         Suc (pos m) + length (snd (tss ! m)) \<le> c \<and>
         take (length (snd (tss ! m))) (drop (Suc (pos m)) ll) = map Ch (snd (tss ! m))"
    by (simp_all add: axis_ok_def)
  have upto: "pos m \<le> c" if "m < Suc k" for m
    using that before eq by (cases "m = k") (auto simp: less_Suc_eq intro: less_imp_le)
  have rhs: "(\<exists>m<Suc k. j = pos m) = ((\<exists>m<k. j = pos m) \<or> j = c)" for j
    using eq by (auto simp: less_Suc_eq)
  have a: "Suc k \<le> length tss" using kl by simp
  have b: "length ?ml = Suc c + length ?l" "length ?ll = Suc c + length ?l" using len by simp_all
  have c: "Suc k < length tss \<longrightarrow> Suc c + length ?l \<le> pos (Suc k)"
    using gap eq by (cases "Suc k < length tss") simp_all
  have d: "\<forall>m<Suc k. pos m < Suc c + length ?l"
  proof (intro allI impI)
    fix m assume "m < Suc k"
    from upto [OF this] show "pos m < Suc c + length ?l" by simp
  qed
  have e: "\<forall>j<Suc c + length ?l. (?ml ! j = VBar) = (\<exists>m<Suc k. j = pos m)"
  proof (intro allI impI)
    fix j assume j: "j < Suc c + length ?l"
    consider "j < c" | "j = c" | "c < j" by linarith
    then show "(?ml ! j = VBar) = (\<exists>m<Suc k. j = pos m)"
    proof cases
      case 1
      then show ?thesis using mlb len by (simp add: nth_append rhs)
    next
      case 2
      then show ?thesis using len by (simp add: nth_append rhs)
    next
      case 3
      then have "j - c - 1 < length ?l" using j by simp
      moreover have "\<not> (\<exists>m<k. j = pos m)" using before 3 by auto
      ultimately show ?thesis using 3 len by (simp add: nth_append rhs nth_Cons')
    qed
  qed
  have f: "\<forall>j<Suc c + length ?l. (?ll ! j = VBar) = (\<exists>m<Suc k. j = pos m)"
  proof (intro allI impI)
    fix j assume j: "j < Suc c + length ?l"
    consider "j < c" | "j = c" | "c < j" by linarith
    then show "(?ll ! j = VBar) = (\<exists>m<Suc k. j = pos m)"
    proof cases
      case 1
      then show ?thesis using llb len by (simp add: nth_append rhs)
    next
      case 2
      then show ?thesis using len by (simp add: nth_append rhs)
    next
      case 3
      then have "j - c - 1 < length ?l" using j by simp
      moreover have "\<not> (\<exists>m<k. j = pos m)" using before 3 by auto
      ultimately show ?thesis using 3 len by (simp add: nth_append rhs nth_Cons')
    qed
  qed
  have g: "\<forall>m<Suc k. labelPlaced tss m \<longrightarrow>
         Suc (pos m) + length (snd (tss ! m)) \<le> Suc c + length ?l \<and>
         take (length (snd (tss ! m))) (drop (Suc (pos m)) ?ll) = map Ch (snd (tss ! m))"
  proof (intro allI impI)
    fix m assume m: "m < Suc k" "labelPlaced tss m"
    show "Suc (pos m) + length (snd (tss ! m)) \<le> Suc c + length ?l \<and>
         take (length (snd (tss ! m))) (drop (Suc (pos m)) ?ll) = map Ch (snd (tss ! m))"
    proof (cases "m = k")
      case True
      then show ?thesis using eq len by simp
    next
      case False
      then have "m < k" using m(1) by simp
      with lab m(2) have le: "Suc (pos m) + length (snd (tss ! m)) \<le> c"
        and tk: "take (length (snd (tss ! m))) (drop (Suc (pos m)) ll) = map Ch (snd (tss ! m))"
        by simp_all
      from le len have "length (snd (tss ! m)) \<le> length ll - Suc (pos m)" by simp
      then show ?thesis using le tk by simp
    qed
  qed
  have h: "Suc k = length tss \<longrightarrow>
        0 < Suc k \<and> Suc c + length ?l = Suc (pos (Suc k - 1)) + length (snd (tss ! (Suc k - 1)))"
  proof (intro impI conjI)
    show "0 < Suc k" by simp
    show "Suc c + length ?l = Suc (pos (Suc k - 1)) + length (snd (tss ! (Suc k - 1)))"
      using eq by (simp only: diff_Suc_1)
  qed
  show ?thesis unfolding axis_ok_def by (intro conjI a b c d e f g h)
qed

lemma axis_ok_skipped:
  assumes ok: "axis_ok tss pos c k ml ll" and eq: "c = pos k"
    and np: "\<not> labelPlaced tss k" and nx: "Suc k < length tss" and inc: "pos k < pos (Suc k)"
  shows "axis_ok tss pos (Suc c) (Suc k) (ml @ [VBar]) (ll @ [VBar])"
proof -
  from ok have len: "length ml = c" "length ll = c"
    and before: "\<forall>m<k. pos m < c"
    and mlb: "\<forall>j<c. (ml ! j = VBar) = (\<exists>m<k. j = pos m)"
    and llb: "\<forall>j<c. (ll ! j = VBar) = (\<exists>m<k. j = pos m)"
    and lab: "\<forall>m<k. labelPlaced tss m \<longrightarrow>
         Suc (pos m) + length (snd (tss ! m)) \<le> c \<and>
         take (length (snd (tss ! m))) (drop (Suc (pos m)) ll) = map Ch (snd (tss ! m))"
    by (simp_all add: axis_ok_def)
  have rhs: "(\<exists>m<Suc k. j = pos m) = ((\<exists>m<k. j = pos m) \<or> j = c)" for j
    using eq by (auto simp: less_Suc_eq)
  have a: "Suc k \<le> length tss" using nx by simp
  have b: "length (ml @ [VBar]) = Suc c" "length (ll @ [VBar]) = Suc c" using len by simp_all
  have c: "Suc k < length tss \<longrightarrow> Suc c \<le> pos (Suc k)" using inc eq by simp
  have d: "\<forall>m<Suc k. pos m < Suc c" using before eq by (auto simp: less_Suc_eq)
  have e: "\<forall>j<Suc c. ((ml @ [VBar]) ! j = VBar) = (\<exists>m<Suc k. j = pos m)"
  proof (intro allI impI)
    fix j assume "j < Suc c"
    then consider "j < c" | "j = c" by linarith
    then show "((ml @ [VBar]) ! j = VBar) = (\<exists>m<Suc k. j = pos m)"
    proof cases
      case 1
      then show ?thesis using mlb len by (simp add: nth_append rhs)
    next
      case 2
      then show ?thesis using len by (simp add: nth_append rhs)
    qed
  qed
  have f: "\<forall>j<Suc c. ((ll @ [VBar]) ! j = VBar) = (\<exists>m<Suc k. j = pos m)"
  proof (intro allI impI)
    fix j assume "j < Suc c"
    then consider "j < c" | "j = c" by linarith
    then show "((ll @ [VBar]) ! j = VBar) = (\<exists>m<Suc k. j = pos m)"
    proof cases
      case 1
      then show ?thesis using llb len by (simp add: nth_append rhs)
    next
      case 2
      then show ?thesis using len by (simp add: nth_append rhs)
    qed
  qed
  have g: "\<forall>m<Suc k. labelPlaced tss m \<longrightarrow>
         Suc (pos m) + length (snd (tss ! m)) \<le> Suc c \<and>
         take (length (snd (tss ! m))) (drop (Suc (pos m)) (ll @ [VBar])) = map Ch (snd (tss ! m))"
  proof (intro allI impI)
    fix m assume m: "m < Suc k" "labelPlaced tss m"
    then have "m < k" using np by (cases "m = k") auto
    with lab m(2) have le: "Suc (pos m) + length (snd (tss ! m)) \<le> c"
      and tk: "take (length (snd (tss ! m))) (drop (Suc (pos m)) ll) = map Ch (snd (tss ! m))"
      by simp_all
    from le len have "length (snd (tss ! m)) \<le> length ll - Suc (pos m)" by simp
    then show "Suc (pos m) + length (snd (tss ! m)) \<le> Suc c \<and>
         take (length (snd (tss ! m))) (drop (Suc (pos m)) (ll @ [VBar])) = map Ch (snd (tss ! m))"
      using le tk by simp
  qed
  have h: "Suc k = length tss \<longrightarrow>
        0 < Suc k \<and> Suc c = Suc (pos (Suc k - 1)) + length (snd (tss ! (Suc k - 1)))"
    using nx by simp
  show ?thesis unfolding axis_ok_def by (intro conjI a b c d e f g h)
qed

lemma pos_mono:
  assumes inc: "\<And>k. Suc k < n \<Longrightarrow> pos k < (pos (Suc k) :: nat)"
  shows "j \<le> k \<Longrightarrow> k < n \<Longrightarrow> pos j \<le> pos k"
proof (induction k)
  case 0
  then show ?case by simp
next
  case (Suc k)
  show ?case
  proof (cases "j = Suc k")
    case True
    then show ?thesis by simp
  next
    case False
    then have "j \<le> k" "k < n" using Suc.prems by simp_all
    from Suc.IH [OF this] inc [OF Suc.prems(2)] show ?thesis by simp
  qed
qed

lemma axis_ok_init:
  assumes "length pad = pos 0" and "VBar \<notin> set pad" and "0 < length tss"
  shows "axis_ok tss pos (pos 0) 0 pad pad"
proof -
  have "pad ! j \<noteq> VBar" if "j < pos 0" for j
    using assms(1,2) that by (metis nth_mem)
  then show ?thesis using assms(1,3) by (simp add: axis_ok_def)
qed

lemma axis_loop1_result:
  assumes n: "0 < length tss"
    and pos: "\<And>k. k < length tss \<Longrightarrow> fst (tss ! k) = num (pos k)"
    and inc: "\<And>k. Suc k < length tss \<Longrightarrow> pos k < pos (Suc k)"
    and pad: "length pad = pos 0" "VBar \<notin> set pad"
  shows "\<exists>c ml ll.
           renderTimeAxis_loop1 (num (pos (length tss - 1))) tss (num (pos 0)) 0 pad pad
             = Some (num c, length tss, ml, ll) \<and>
           axis_ok tss pos c (length tss) ml ll"
proof -
  let ?P = "axis_ok tss pos"
  let ?b = "pos (length tss - 1)"
  have init: "?P (pos 0) 0 pad pad" by (rule axis_ok_init [of pad pos tss, OF pad n])
  have ahead: "c \<le> pos k" if "?P c k ml ll" and "c \<le> ?b" and "k < length tss" for c k ml ll
    using that(1,3) by (simp add: axis_ok_def)
  have blank: "?P (Suc c) k (ml @ [Space]) (ll @ [Space])"
    if "?P c k ml ll" and "c \<le> ?b" and "k < length tss" and "c < pos k" for c k ml ll
    using that(1,3,4) by (rule axis_ok_blank)
  have placed: "?P (Suc c + length (snd (tss ! k))) (Suc k)
          (ml @ [VBar] @ replicate (length (snd (tss ! k))) Space)
          (ll @ [VBar] @ map Ch (snd (tss ! k)))"
    if ok: "?P c k ml ll" and "c \<le> ?b" and kl: "k < length tss" and eq: "c = pos k"
      and pl: "labelPlaced tss k" for c k ml ll
  proof -
    have "Suc (pos k) + length (snd (tss ! k)) < pos (Suc k)" if nx: "Suc k < length tss"
      by (rule labelPlaced_gap [of tss k pos, OF pl nx pos [OF kl] pos [OF nx]])
    then have "Suc k < length tss \<longrightarrow> Suc (pos k) + length (snd (tss ! k)) < pos (Suc k)"
      by blast
    with ok kl eq show ?thesis by (rule axis_ok_placed)
  qed
  have skipped: "?P (Suc c) (Suc k) (ml @ [VBar]) (ll @ [VBar])"
    if ok: "?P c k ml ll" and "c \<le> ?b" and kl: "k < length tss" and eq: "c = pos k"
      and np: "\<not> labelPlaced tss k" for c k ml ll
  proof -
    from not_placed_not_last [OF np kl] have nx: "Suc k < length tss" .
    from ok eq np nx inc [OF nx] show ?thesis by (rule axis_ok_skipped)
  qed
  have "\<exists>c' k' ml' ll'.
           renderTimeAxis_loop1 (num ?b) tss (num (pos 0)) 0 pad pad = Some (num c', k', ml', ll') \<and>
           ?P c' k' ml' ll' \<and> \<not> (c' \<le> ?b \<and> k' < length tss)"
  proof (rule axis_loop1_rule [of ?P "pos 0" 0 pad pad tss pos ?b])
    show "?P (pos 0) 0 pad pad" by (rule init)
    show "\<And>k. k < length tss \<Longrightarrow> fst (tss ! k) = num (pos k)" by (rule pos)
    show "\<And>c k ml ll. ?P c k ml ll \<Longrightarrow> c \<le> ?b \<Longrightarrow> k < length tss \<Longrightarrow> c \<le> pos k"
      by (rule ahead)
    show "\<And>c k ml ll. ?P c k ml ll \<Longrightarrow> c \<le> ?b \<Longrightarrow> k < length tss \<Longrightarrow> c < pos k \<Longrightarrow>
            ?P (Suc c) k (ml @ [Space]) (ll @ [Space])"
      by (rule blank)
    show "\<And>c k ml ll. ?P c k ml ll \<Longrightarrow> c \<le> ?b \<Longrightarrow> k < length tss \<Longrightarrow> c = pos k \<Longrightarrow>
            labelPlaced tss k \<Longrightarrow>
            ?P (Suc c + length (snd (tss ! k))) (Suc k)
              (ml @ [VBar] @ replicate (length (snd (tss ! k))) Space)
              (ll @ [VBar] @ map Ch (snd (tss ! k)))"
      by (rule placed)
    show "\<And>c k ml ll. ?P c k ml ll \<Longrightarrow> c \<le> ?b \<Longrightarrow> k < length tss \<Longrightarrow> c = pos k \<Longrightarrow>
            \<not> labelPlaced tss k \<Longrightarrow> ?P (Suc c) (Suc k) (ml @ [VBar]) (ll @ [VBar])"
      by (rule skipped)
  qed
  then obtain c' k' ml' ll' where
    run: "renderTimeAxis_loop1 (num ?b) tss (num (pos 0)) 0 pad pad = Some (num c', k', ml', ll')"
    and ok: "?P c' k' ml' ll'" and out: "\<not> (c' \<le> ?b \<and> k' < length tss)" by blast
  have "k' = length tss"
  proof (rule ccontr)
    assume "k' \<noteq> length tss"
    with ok have kl: "k' < length tss" by (simp add: axis_ok_def)
    with ok have "c' \<le> pos k'" by (simp add: axis_ok_def)
    moreover have "pos k' \<le> ?b" using pos_mono [of "length tss" pos k' "length tss - 1"] inc kl by simp
    ultimately show False using out kl by simp
  qed
  with run ok show ?thesis by blast
qed

end
